theory Spec2Isabelle
  imports Complex_Main "HOL-Library.Word"
begin

unbundle bit_operations_syntax

section \<open>The special-q lattice sieve on the GPU (stage1\_sieve\_gpu\_sq.c)\<close>

text \<open>
  A shallow embedding of \<^verbatim>\<open>gnfs/poly/stage1/stage1_sieve_gpu_sq.c\<close>. The C types
  \<^verbatim>\<open>uint32\<close> and \<^verbatim>\<open>uint64\<close> are 32- and 64-bit words, so \<open>+\<close>, \<open>-\<close> and \<open>*\<close> wrap as
  they do in C, \<open>div\<close> and \<open>mod\<close> are the unsigned operations, and \<open><\<close> compares the
  unsigned values.
\<close>

type_synonym uint32 = "32 word"
type_synonym uint64 = "64 word"

subsection \<open>The batch buffer \<^verbatim>\<open>p_soa_var_t\<close>\<close>

text \<open>
  \<^verbatim>\<open>typedef struct { uint32 num_p; uint32 num_p_alloc; uint32 *p; uint64 *root; }\<close>.
  The two heap arrays are lists; \<open>soa_p\<close> and \<open>soa_root\<close> stand for the fields
  \<^verbatim>\<open>p\<close> and \<^verbatim>\<open>root\<close>. A buffer is well formed when both arrays have the
  \<^verbatim>\<open>num_p_alloc\<close> cells that \<^verbatim>\<open>p_soa_var_init\<close> allocates.
\<close>

record p_soa_var_t =
  num_p :: uint32
  num_p_alloc :: uint32
  soa_p :: "uint32 list"
  soa_root :: "uint64 list"

definition soa_wf :: "p_soa_var_t \<Rightarrow> bool" where
  "soa_wf soa \<longleftrightarrow>
     length (soa_p soa) = unat (num_p_alloc soa) \<and>
     length (soa_root soa) = unat (num_p_alloc soa)"

text \<open>
  \<^verbatim>\<open>p_soa_var_init\<close>: the \<^verbatim>\<open>memset\<close> clears \<^verbatim>\<open>sizeof(soa)\<close> bytes, the size of a
  pointer, which covers \<^verbatim>\<open>num_p\<close>; the capacity is set and both arrays are allocated.
  \<^verbatim>\<open>xmalloc\<close> leaves the cells indeterminate: the model fills them with 0, and nothing
  below reads a cell of a fresh buffer before it is written, except through an index
  that the kernel supplies.
\<close>

definition p_soa_var_init :: "uint32 \<Rightarrow> p_soa_var_t" where
  "p_soa_var_init batch_size =
     \<lparr>num_p = 0, num_p_alloc = batch_size,
      soa_p = replicate (unat batch_size) 0,
      soa_root = replicate (unat batch_size) 0\<rparr>"

definition p_soa_var_reset :: "p_soa_var_t \<Rightarrow> p_soa_var_t" where
  "p_soa_var_reset soa = soa\<lparr>num_p := 0\<rparr>"

text \<open>
  \<^verbatim>\<open>store_p_soa\<close>: the body of
  \<^verbatim>\<open>for (i = 0; i < num_roots && soa->num_p < soa->num_p_alloc; i++)\<close>,
  started at \<open>i = 0\<close>. The caller hands over \<^verbatim>\<open>num_roots\<close> and an array
  \<^verbatim>\<open>roots\<close> that holds at least that many values.
\<close>

function store_loop ::
  "uint32 \<Rightarrow> uint32 \<Rightarrow> uint32 \<Rightarrow> uint64 list \<Rightarrow> p_soa_var_t \<Rightarrow> p_soa_var_t" where
  "store_loop i pv num_roots roots soa =
     (if i < num_roots \<and> num_p soa < num_p_alloc soa then
        store_loop (i + 1) pv num_roots roots
          (soa\<lparr>soa_p := (soa_p soa)[unat (num_p soa) := pv],
                soa_root := (soa_root soa)[unat (num_p soa) := roots ! unat i],
                num_p := num_p soa + 1\<rparr>)
      else soa)"
  by pat_completeness auto

lemma unat_inc_lt: "(i::'a::len word) < n \<Longrightarrow> unat (i + 1) = Suc (unat i)"
proof -
  assume "i < n"
  then have "unat i < unat n" by (simp add: word_less_nat_alt)
  moreover have "unat n < 2 ^ LENGTH('a)" by (rule unsigned_less)
  ultimately have "unat i + 1 < 2 ^ LENGTH('a)" by linarith
  then have "unat i + unat (1::'a word) < 2 ^ LENGTH('a)" by simp
  then have "unat (i + 1) = unat i + unat (1::'a word)" by (simp only: unat_add_lem)
  then show ?thesis by simp
qed

termination store_loop
  apply (relation "measure (\<lambda>(i, pv, n, roots, soa). unat n - unat i)")
   apply simp
  apply (auto simp: unat_inc_lt word_less_nat_alt)
  done

declare store_loop.simps [simp del]

definition store_p_soa ::
  "uint32 \<Rightarrow> uint32 \<Rightarrow> uint64 list \<Rightarrow> p_soa_var_t \<Rightarrow> p_soa_var_t" where
  "store_p_soa pv num_roots roots soa = store_loop 0 pv num_roots roots soa"

text \<open>The valid part of a buffer: its first \<^verbatim>\<open>num_p\<close> (value, root) pairs.\<close>

definition valid_p :: "p_soa_var_t \<Rightarrow> uint32 list" where
  "valid_p soa = take (unat (num_p soa)) (soa_p soa)"

definition valid_root :: "p_soa_var_t \<Rightarrow> uint64 list" where
  "valid_root soa = take (unat (num_p soa)) (soa_root soa)"

definition entries :: "p_soa_var_t \<Rightarrow> (uint32 \<times> uint64) list" where
  "entries soa = zip (valid_p soa) (valid_root soa)"

subsection \<open>128-bit values\<close>

text \<open>
  \<^verbatim>\<open>uint128\<close> is a struct of four 32-bit words \<^verbatim>\<open>w[0..3]\<close>, least significant
  first (\<^verbatim>\<open>check_found\<close> fills \<^verbatim>\<open>w[0]\<close> with the low half of a 64-bit value and
  \<^verbatim>\<open>w[1]\<close> with the high half). \<open>val128\<close> is the number that the four words hold and
  \<open>to128\<close> cuts a number down to its low 128 bits.
\<close>

type_synonym uint128 = "uint32 list"

definition val128 :: "uint128 \<Rightarrow> nat" where
  "val128 x =
     unat (x ! 0) + 2 ^ 32 * unat (x ! 1) + 2 ^ 64 * unat (x ! 2) + 2 ^ 96 * unat (x ! 3)"

definition to128 :: "nat \<Rightarrow> uint128" where
  "to128 n = [of_nat n, of_nat (n div 2 ^ 32), of_nat (n div 2 ^ 64), of_nat (n div 2 ^ 96)]"

text \<open>
  The same 128 bits read as a signed number in two's complement: bit 127 is the sign.
\<close>

definition sval128 :: "uint128 \<Rightarrow> int" where
  "sval128 x = (if val128 x < 2 ^ 127 then int (val128 x) else int (val128 x) - 2 ^ 128)"

text \<open>
  Modelled from the spec: \<^verbatim>\<open>mul64\<close> of \<^verbatim>\<open>cpu_intrinsics.h\<close>, which is not among
  the sources, and the type of the field \<^verbatim>\<open>offset\<close>, which is declared in
  \<^verbatim>\<open>stage1_core_sq.h\<close>, not among the sources either. The spec gives the record "a
  signed lattice offset (64-bit)" and has the reducer "multiply the offset by \<open>p\<^sup>2\<close>
  to a 128-bit product": the first operand is a signed 64-bit value, the second an
  unsigned one, and the result is their product in 128 bits, a negative product in
  two's complement.
\<close>

text \<open>A signed 64-bit value is its 64 bits; \<open>sint\<close> reads them in two's complement.\<close>

type_synonym int64 = "64 word"

definition mul64 :: "int64 \<Rightarrow> uint64 \<Rightarrow> uint128" where
  "mul64 a b = to128 (nat ((sint a * uint b) mod 2 ^ 128))"

text \<open>
  Modelled from the spec: \<^verbatim>\<open>add128\<close> of \<^verbatim>\<open>cpu_intrinsics.h\<close>, which is not among
  the sources. The spec has the sum "carried exactly in 128-bit arithmetic": addition
  of two 128-bit values, a carry out of bit 127 being lost.
\<close>

definition add128 :: "uint128 \<Rightarrow> uint128 \<Rightarrow> uint128" where
  "add128 a b = to128 (val128 a + val128 b)"

subsection \<open>The reducer \<^verbatim>\<open>check_found\<close>\<close>

text \<open>
  \<^verbatim>\<open>found_t\<close> is declared in \<^verbatim>\<open>stage1_core_gpu/stage1_core_sq.h\<close>; the record has
  the fields that \<^verbatim>\<open>check_found\<close> reads (\<open>f_p\<close> for \<^verbatim>\<open>p\<close>, and so on), with
  \<^verbatim>\<open>offset\<close> signed, as the spec has it, and the others unsigned. A \<open>collision\<close> is
  one call of the external \<^verbatim>\<open>handle_collision\<close>, with its arguments after
  \<^verbatim>\<open>L->poly\<close>. Reading outside an array is undefined in C; the model returns the
  fault \<open>OutOfBounds\<close> there, \<open>DivideByZero\<close> for a division by 0, and
  \<open>ConversionOutOfRange\<close> for a floating-point value converted to an integer type
  that cannot hold it.
\<close>

datatype fault = OutOfBounds | DivideByZero | ConversionOutOfRange

record found_t =
  f_p :: uint32
  f_q :: uint32
  f_k :: uint32
  f_offset :: int64
  f_proot :: uint64

record collision =
  c_p :: uint32
  c_q :: uint32
  c_special_q :: uint32
  c_special_q_root :: uint64
  c_res :: uint128

text \<open>
  \<^verbatim>\<open>p2 = (uint64)f->p * f->p\<close>, the four words of \<^verbatim>\<open>proot\<close>, and
  \<^verbatim>\<open>res = add128(proot, mul64(f->offset, p2))\<close>.
\<close>

definition residue :: "found_t \<Rightarrow> uint128" where
  "residue f =
     (let p2 = (ucast (f_p f) :: uint64) * ucast (f_p f);
          proot = [ucast (f_proot f), ucast (drop_bit 32 (f_proot f)), 0, 0]
      in add128 proot (mul64 (f_offset f) p2))"

definition collision_of :: "p_soa_var_t \<Rightarrow> uint32 \<Rightarrow> found_t \<Rightarrow> collision" where
  "collision_of sq_array sq_offset f =
     \<lparr>c_p = f_p f, c_q = f_q f,
      c_special_q = soa_p sq_array ! unat (f_k f + sq_offset),
      c_special_q_root = soa_root sq_array ! unat (f_k f + sq_offset),
      c_res = residue f\<rparr>"

text \<open>
  The loop \<^verbatim>\<open>for (i = 0; i < found_array_size; i++)\<close>; \<open>calls\<close> collects the calls
  of the handler made so far, in order.
\<close>

function check_loop ::
  "uint32 \<Rightarrow> p_soa_var_t \<Rightarrow> found_t list \<Rightarrow> uint32 \<Rightarrow> uint32 \<Rightarrow> collision list
     \<Rightarrow> fault + collision list" where
  "check_loop i sq_array found_array found_array_size sq_offset calls =
     (if i < found_array_size then
        (if unat i < length found_array then
           (let f = found_array ! unat i in
            if f_p f = 0 then
              check_loop (i + 1) sq_array found_array found_array_size sq_offset calls
            else if unat (f_k f + sq_offset) < length (soa_p sq_array)
                  \<and> unat (f_k f + sq_offset) < length (soa_root sq_array) then
              check_loop (i + 1) sq_array found_array found_array_size sq_offset
                (calls @ [collision_of sq_array sq_offset f])
            else Inl OutOfBounds)
         else Inl OutOfBounds)
      else Inr calls)"
  by pat_completeness auto
termination
  apply (relation "measure (\<lambda>(i, sq, fa, n, off, calls). unat n - unat i)")
    apply simp
   apply (auto simp: unat_inc_lt word_less_nat_alt)
  done

declare check_loop.simps [simp del]

definition check_found ::
  "p_soa_var_t \<Rightarrow> found_t list \<Rightarrow> uint32 \<Rightarrow> uint32 \<Rightarrow> fault + collision list" where
  "check_found sq_array found_array found_array_size sq_offset =
     check_loop 0 sq_array found_array found_array_size sq_offset []"

text \<open>The records of an output array that report a hit: those with \<^verbatim>\<open>p != 0\<close>.\<close>

definition hits :: "found_t list \<Rightarrow> found_t list" where
  "hits fs = filter (\<lambda>f. f_p f \<noteq> 0) fs"

subsection \<open>The kernel's parameter list\<close>

text \<open>
  \<^verbatim>\<open>sieve_lattice_batch\<close> lays the parameters out with a running byte offset
  \<^verbatim>\<open>i\<close>: before each parameter \<^verbatim>\<open>i\<close> is aligned, the parameter is put at
  \<^verbatim>\<open>i\<close>, and \<^verbatim>\<open>i\<close> moves on by the parameter's size. The offsets of the three counts
  are kept in \<^verbatim>\<open>num_p_offset\<close>, \<^verbatim>\<open>num_q_offset\<close> and \<^verbatim>\<open>num_sq_offset\<close> for the
  loops, which store the counts there before a launch. The size and the alignment of a
  pointer depend on the platform and are arguments; \<^verbatim>\<open>uint32\<close> has size and alignment
  4 and \<^verbatim>\<open>uint64\<close> has 8.
\<close>

record param_layout =
  gpu_p_array_offset :: uint32
  num_p_offset :: uint32
  gpu_q_array_offset :: uint32
  num_q_offset :: uint32
  gpu_sq_array_offset :: uint32
  num_sq_offset :: uint32
  lattice_size_offset :: uint32
  gpu_found_array_offset :: uint32
  param_size :: uint32

text \<open>
  Modelled from the spec: the macro \<^verbatim>\<open>CUDA_ALIGN_PARAM\<close>, which is not among the
  sources. The spec has each field "aligned per its native size": the offset moves up
  to the next multiple of the alignment.
\<close>

definition CUDA_ALIGN_PARAM :: "uint32 \<Rightarrow> uint32 \<Rightarrow> uint32" where
  "CUDA_ALIGN_PARAM offset alignment = (offset + alignment - 1) div alignment * alignment"

definition kernel_params :: "uint32 \<Rightarrow> uint32 \<Rightarrow> param_layout" where
  "kernel_params sizeof_ptr alignof_ptr =
     (let i0 = CUDA_ALIGN_PARAM 0 alignof_ptr;
          i1 = CUDA_ALIGN_PARAM (i0 + sizeof_ptr) 4;
          i2 = CUDA_ALIGN_PARAM (i1 + 4) alignof_ptr;
          i3 = CUDA_ALIGN_PARAM (i2 + sizeof_ptr) 4;
          i4 = CUDA_ALIGN_PARAM (i3 + 4) alignof_ptr;
          i5 = CUDA_ALIGN_PARAM (i4 + sizeof_ptr) 4;
          i6 = CUDA_ALIGN_PARAM (i5 + 4) 8;
          i7 = CUDA_ALIGN_PARAM (i6 + 8) alignof_ptr
      in \<lparr>gpu_p_array_offset = i0, num_p_offset = i1,
          gpu_q_array_offset = i2, num_q_offset = i3,
          gpu_sq_array_offset = i4, num_sq_offset = i5,
          lattice_size_offset = i6, gpu_found_array_offset = i7,
          param_size = i7 + sizeof_ptr\<rparr>)"

subsection \<open>Events, the environment and the lattice structure\<close>

text \<open>
  What the code does to the outside is kept as a trace of events, oldest first. A
  \<open>launch\<close> is one \<^verbatim>\<open>cuLaunchGrid\<close>: the kernel, the parameter layout, the lattice size,
  and for each of the three buffers where its chunk starts (\<^verbatim>\<open>num_q_done\<close>, ...) and
  the count bound for it (\<^verbatim>\<open>curr_num_q\<close>, ...), and the grid width. The
  \<^verbatim>\<open>memcpy\<close>s and the host-to-device copies before a launch move exactly these chunks
  and are not events of their own. The other events are a call of
  \<^verbatim>\<open>handle_collision\<close>, a read of the stop flag and a read of the clock with what the
  comparison gave, allocations and releases on the host and on the device, the
  creation and release of a sieve by \<^verbatim>\<open>sieve_fb_init\<close> and \<^verbatim>\<open>sieve_fb_free\<close>, the
  line \<^verbatim>\<open>gmp_printf\<close> writes at the start of a round (special-q, small and large
  range, each as minimum and maximum) and the error message. The calls of the CUDA
  driver are taken to succeed; \<^verbatim>\<open>CUDA_TRY\<close> ends the process otherwise. The
  64-bit \<^verbatim>\<open>lattice_size\<close> has a slot of eight bytes in the parameter list, but it is
  bound with \<^verbatim>\<open>cuParamSeti\<close>, whose value is an \<^verbatim>\<open>unsigned int\<close>: the launch
  receives its low 32 bits.
\<close>

datatype kernel = sieve_kernel_48 | sieve_kernel_64

record launch =
  l_kernel :: kernel
  l_params :: param_layout
  l_lattice_size :: uint32
  l_num_q_done :: uint32
  l_curr_num_q :: uint32
  l_num_blocks :: uint32
  l_num_p_done :: uint32
  l_curr_num_p :: uint32
  l_num_sq_done :: uint32
  l_curr_num_sq :: uint32

datatype event =
    Launch launch
  | Collision collision
  | StopPoll bool
  | TimePoll bool
  | HostAlloc | DeviceAlloc | HostFree | DeviceFree
  | FbInit | FbFree
  | PrintRanges uint32 uint32 uint32 uint32 uint32 uint32
  | PrintError

type_synonym trace = "event list"

text \<open>
  A sieve \<^verbatim>\<open>sieve_fb_t\<close> is given by what it enumerates: after
  \<^verbatim>\<open>sieve_fb_reset(s, min, max, 1, MAX_ROOTS)\<close> the calls of \<^verbatim>\<open>sieve_fb_next\<close> hand
  the items of \<open>s min max\<close> to the callback one by one, a value with its roots, and
  return \<^verbatim>\<open>P_SEARCH_DONE\<close> when none is left.

  The environment holds what the code reads from outside, as functions of the length
  of the trace so far where the answer can change with time: the flag
  \<^verbatim>\<open>obj->flags & MSIEVE_FLAG_STOP_SIEVING\<close>, the test
  \<^verbatim>\<open>time(NULL) - L->start_time > L->deadline\<close>, and the records that the device
  copies back. It also holds the attribute \<^verbatim>\<open>MAX_THREADS_PER_BLOCK\<close> of each
  kernel, the value of the expression
  \<^verbatim>\<open>2 * L->poly->sieve_size / ((uint64)special_q_max * special_q_max) / ((uint64)small_p_max * small_p_max)\<close>
  as a function of the two bounds (the type of \<^verbatim>\<open>sieve_size\<close> is declared in
  \<^verbatim>\<open>stage1.h\<close>), the sieve that \<^verbatim>\<open>sieve_fb_init(s, L->poly, 0, 0, 1, degree, 0)\<close>
  creates, the constants of \<^verbatim>\<open>stage1_core_sq.h\<close> and \<^verbatim>\<open>stage1.h\<close>, none of which
  is among the sources, and the size of a pointer. \<^verbatim>\<open>P_SCALE\<close> is a floating-point
  constant: the guard of \<^verbatim>\<open>sieve_lattice_gpu_sq\<close> compares a product with it against
  \<^verbatim>\<open>(uint32)(-1)\<close>, which no 32-bit product exceeds.
\<close>

type_synonym item = "uint32 \<times> uint64 list"
type_synonym sieve_fb_t = "uint32 \<Rightarrow> uint32 \<Rightarrow> item list"

record env =
  stop_sieving :: "nat \<Rightarrow> bool"
  past_deadline :: "nat \<Rightarrow> bool"
  found_output :: "nat \<Rightarrow> nat \<Rightarrow> found_t"
  max_threads_per_block :: "kernel \<Rightarrow> uint32"
  lattice_size_of :: "uint32 \<Rightarrow> uint32 \<Rightarrow> uint64"
  prime_sieve :: sieve_fb_t
  P_SOA_BATCH_SIZE :: uint32
  Q_SOA_BATCH_SIZE :: uint32
  SPECIALQ_BATCH_SIZE :: uint32
  P_SCALE :: real
  sizeof_ptr :: uint32

record gpu_info_t =
  num_compute_units :: uint32

text \<open>
  The fields of \<^verbatim>\<open>lattice_fb_t\<close> that the batching reads: the three batch buffers and
  the number of records in the output buffer, on the host and on the device.
\<close>

record lattice_fb_t =
  p_array :: p_soa_var_t
  q_array :: p_soa_var_t
  sq_array :: p_soa_var_t
  found_array_size :: uint32

subsection \<open>\<^verbatim>\<open>sieve_lattice_batch\<close>\<close>

text \<open>
  The loops of the C code may run without end (a chunk size can be 0), so each loop
  takes a bound on its iterations and gives \<open>Timeout\<close> with the trace so far when
  the bound is used up. \<open>Next\<close> says that a loop has ended and control goes on behind
  it, \<open>Return r\<close> that the function has returned \<open>r\<close> from inside the loop, and
  \<open>Crash\<close> that the code has run into undefined behaviour. A function gives an
  \<open>outcome\<close>: its return value, a fault, or \<open>OutOfFuel\<close>.
\<close>

datatype flow = Next | Return uint32 | Crash fault | Timeout

datatype 'a outcome = Returns 'a | Faults fault | OutOfFuel

text \<open>
  The chunk sizes: \<^verbatim>\<open>curr_num_sq\<close> (one \<^verbatim>\<open>MIN\<close>), \<^verbatim>\<open>curr_num_p\<close> (two) and
  \<^verbatim>\<open>curr_num_q\<close> (two, then \<^verbatim>\<open>curr_num_q -= (curr_num_q % threads_per_block)\<close>), and
  the grid width \<^verbatim>\<open>num_blocks\<close>. \<^verbatim>\<open>MIN(a,b)\<close> is \<^verbatim>\<open>((a) < (b) ? (a) : (b))\<close>.
\<close>

definition chunk_sq :: "env \<Rightarrow> lattice_fb_t \<Rightarrow> uint32 \<Rightarrow> uint32" where
  "chunk_sq E L num_sq_done =
     min (SPECIALQ_BATCH_SIZE E) (num_p (sq_array L) - num_sq_done)"

definition chunk_p :: "env \<Rightarrow> lattice_fb_t \<Rightarrow> uint32 \<Rightarrow> uint32" where
  "chunk_p E L num_p_done =
     (let curr_num_p = min (found_array_size L div 3) (num_p (p_array L) - num_p_done)
      in min curr_num_p (P_SOA_BATCH_SIZE E))"

definition chunk_q :: "env \<Rightarrow> lattice_fb_t \<Rightarrow> uint32 \<Rightarrow> uint32 \<Rightarrow> uint32" where
  "chunk_q E L threads_per_block num_q_done =
     (let curr_num_q = min (3 * found_array_size L) (num_p (q_array L) - num_q_done);
          curr_num_q = min curr_num_q (Q_SOA_BATCH_SIZE E)
      in curr_num_q - curr_num_q mod threads_per_block)"

definition grid_width :: "lattice_fb_t \<Rightarrow> uint32 \<Rightarrow> gpu_info_t \<Rightarrow> uint32 \<Rightarrow> uint32" where
  "grid_width L threads_per_block gpu_info curr_num_q =
     (if curr_num_q < found_array_size L then curr_num_q div threads_per_block
      else num_compute_units gpu_info)"

text \<open>
  \<^verbatim>\<open>cuMemcpyDtoH\<close> brings back \<^verbatim>\<open>num_blocks * threads_per_block\<close> records; the copy
  leaves the buffers when that is more than \<^verbatim>\<open>found_array_size\<close>.
\<close>

definition copy_back :: "env \<Rightarrow> nat \<Rightarrow> uint32 \<Rightarrow> found_t list" where
  "copy_back E clock count = map (found_output E clock) [0..<unat count]"

text \<open>
  The innermost loop \<^verbatim>\<open>while (num_sq_done < sq_array->num_p)\<close>: launch, copy back,
  reduce, then the test of the stop flag. \<open>lc\<close> carries what the enclosing loops have
  fixed for the launch.
\<close>

fun sq_loop ::
  "nat \<Rightarrow> env \<Rightarrow> lattice_fb_t \<Rightarrow> uint32 \<Rightarrow> launch \<Rightarrow> uint32 \<Rightarrow> trace \<Rightarrow> flow \<times> trace" where
  "sq_loop 0 E L threads_per_block lc num_sq_done tr = (Timeout, tr)"
| "sq_loop (Suc n) E L threads_per_block lc num_sq_done tr =
     (if num_sq_done < num_p (sq_array L) then
        (let curr_num_sq = chunk_sq E L num_sq_done;
             tr1 = tr @ [Launch (lc\<lparr>l_num_sq_done := num_sq_done,
                                     l_curr_num_sq := curr_num_sq\<rparr>)];
             copied = l_num_blocks lc * threads_per_block
         in if found_array_size L < copied then (Crash OutOfBounds, tr1)
            else
              (case check_found (sq_array L) (copy_back E (length tr1) copied) copied
                      num_sq_done of
                 Inl f \<Rightarrow> (Crash f, tr1)
               | Inr calls \<Rightarrow>
                   (let tr2 = tr1 @ map Collision calls in
                    if stop_sieving E (length tr2) then (Return 1, tr2 @ [StopPoll True])
                    else sq_loop n E L threads_per_block lc (num_sq_done + curr_num_sq)
                           (tr2 @ [StopPoll False]))))
      else (Next, tr))"

text \<open>
  The middle loop \<^verbatim>\<open>while (num_p_done < p_array->num_p)\<close>, with the test of the
  deadline after the special-q chunks of a small-p chunk.
\<close>

fun p_loop ::
  "nat \<Rightarrow> env \<Rightarrow> lattice_fb_t \<Rightarrow> uint32 \<Rightarrow> launch \<Rightarrow> uint32 \<Rightarrow> trace \<Rightarrow> flow \<times> trace" where
  "p_loop 0 E L threads_per_block lc num_p_done tr = (Timeout, tr)"
| "p_loop (Suc n) E L threads_per_block lc num_p_done tr =
     (if num_p_done < num_p (p_array L) then
        (let curr_num_p = chunk_p E L num_p_done
         in case sq_loop n E L threads_per_block
                   (lc\<lparr>l_num_p_done := num_p_done, l_curr_num_p := curr_num_p\<rparr>) 0 tr of
              (Next, tr1) \<Rightarrow>
                if past_deadline E (length tr1) then (Return 1, tr1 @ [TimePoll True])
                else p_loop n E L threads_per_block lc (num_p_done + curr_num_p)
                       (tr1 @ [TimePoll False])
            | (fl, tr1) \<Rightarrow> (fl, tr1))
      else (Next, tr))"

text \<open>
  The outer loop \<^verbatim>\<open>while (num_q_done < q_array->num_p)\<close>. The remainder
  \<^verbatim>\<open>curr_num_q % threads_per_block\<close> is a division by zero when
  \<^verbatim>\<open>threads_per_block\<close> is 0; a chunk of 0 is the \<^verbatim>\<open>break\<close>.
\<close>

fun q_loop ::
  "nat \<Rightarrow> env \<Rightarrow> lattice_fb_t \<Rightarrow> uint32 \<Rightarrow> gpu_info_t \<Rightarrow> launch \<Rightarrow> uint32 \<Rightarrow> trace
     \<Rightarrow> flow \<times> trace" where
  "q_loop 0 E L threads_per_block gpu_info lc num_q_done tr = (Timeout, tr)"
| "q_loop (Suc n) E L threads_per_block gpu_info lc num_q_done tr =
     (if num_q_done < num_p (q_array L) then
        if threads_per_block = 0 then (Crash DivideByZero, tr)
        else if chunk_q E L threads_per_block num_q_done = 0 then (Next, tr)
        else
          (case p_loop n E L threads_per_block
                  (lc\<lparr>l_num_q_done := num_q_done,
                        l_curr_num_q := chunk_q E L threads_per_block num_q_done,
                        l_num_blocks := grid_width L threads_per_block gpu_info
                                          (chunk_q E L threads_per_block num_q_done)\<rparr>) 0 tr of
             (Next, tr1) \<Rightarrow>
               q_loop n E L threads_per_block gpu_info lc
                 (num_q_done + chunk_q E L threads_per_block num_q_done) tr1
           | (fl, tr1) \<Rightarrow> (fl, tr1))
      else (Next, tr))"

text \<open>
  The function: the parameter layout is fixed first, then the loops run; falling out
  of the outer loop is \<^verbatim>\<open>return 0\<close>.
\<close>

definition sieve_lattice_batch ::
  "nat \<Rightarrow> env \<Rightarrow> lattice_fb_t \<Rightarrow> uint64 \<Rightarrow> uint32 \<Rightarrow> gpu_info_t \<Rightarrow> kernel \<Rightarrow> trace
     \<Rightarrow> uint32 outcome \<times> trace" where
  "sieve_lattice_batch n E L lattice_size threads_per_block gpu_info gpu_kernel tr =
     (case q_loop n E L threads_per_block gpu_info
             \<lparr>l_kernel = gpu_kernel,
              l_params = kernel_params (sizeof_ptr E) (sizeof_ptr E),
              l_lattice_size = ucast lattice_size,
              l_num_q_done = 0, l_curr_num_q = 0, l_num_blocks = 0,
              l_num_p_done = 0, l_curr_num_p = 0, l_num_sq_done = 0, l_curr_num_sq = 0\<rparr>
             0 tr of
        (Next, tr') \<Rightarrow> (Returns 0, tr')
      | (Return r, tr') \<Rightarrow> (Returns r, tr')
      | (Crash f, tr') \<Rightarrow> (Faults f, tr')
      | (Timeout, tr') \<Rightarrow> (OutOfFuel, tr'))"

subsection \<open>\<^verbatim>\<open>sieve_specialq_64\<close>\<close>

text \<open>
  Filling a buffer: \<^verbatim>\<open>while (sieve_fb_next(s, L->poly, store_p_soa, soa) != P_SEARCH_DONE)\<close>
  \<^verbatim>\<open>if (soa->num_p == batch_size) break;\<close>. The second component is what the sieve has
  left to enumerate; a sieve that is done stays done.
\<close>

fun fill_batch :: "uint32 \<Rightarrow> item list \<Rightarrow> p_soa_var_t \<Rightarrow> p_soa_var_t \<times> item list" where
  "fill_batch batch_size [] soa = (soa, [])"
| "fill_batch batch_size ((pv, roots) # rest) soa =
     (let soa' = store_p_soa pv (of_nat (length roots)) roots soa
      in if num_p soa' = batch_size then (soa', rest) else fill_batch batch_size rest soa')"

text \<open>
  The local variables of \<^verbatim>\<open>sieve_specialq_64\<close> that its loops only read, and the
  state that the loops change: the buffers in \<^verbatim>\<open>L\<close>, what each sieve has left,
  \<^verbatim>\<open>quit\<close>, and the trace.
\<close>

record locals =
  v_threads_per_block :: uint32
  v_host_p_batch_size :: uint32
  v_host_q_batch_size :: uint32
  v_host_sq_batch_size :: uint32
  v_lattice_size :: uint64
  v_gpu_info :: gpu_info_t
  v_gpu_kernel :: kernel
  v_sieve_special_q :: sieve_fb_t
  v_special_q_min :: uint32
  v_special_q_max :: uint32
  v_sieve_small_p :: sieve_fb_t
  v_small_p_min :: uint32
  v_small_p_max :: uint32

record sieve_state =
  s_L :: lattice_fb_t
  s_large_p :: "item list"
  s_small_p :: "item list"
  s_special_q :: "item list"
  s_quit :: uint32
  s_trace :: trace

definition refill_sq :: "locals \<Rightarrow> sieve_state \<Rightarrow> sieve_state" where
  "refill_sq V st =
     (let (soa, rest) = fill_batch (v_host_sq_batch_size V) (s_special_q st)
                          (p_soa_var_reset (sq_array (s_L st)))
      in st\<lparr>s_L := (s_L st)\<lparr>sq_array := soa\<rparr>, s_special_q := rest\<rparr>)"

definition refill_p :: "locals \<Rightarrow> sieve_state \<Rightarrow> sieve_state" where
  "refill_p V st =
     (let (soa, rest) = fill_batch (v_host_p_batch_size V) (s_small_p st)
                          (p_soa_var_reset (p_array (s_L st)))
      in st\<lparr>s_L := (s_L st)\<lparr>p_array := soa\<rparr>, s_small_p := rest\<rparr>)"

definition refill_q :: "locals \<Rightarrow> sieve_state \<Rightarrow> sieve_state" where
  "refill_q V st =
     (let (soa, rest) = fill_batch (v_host_q_batch_size V) (s_large_p st)
                          (p_soa_var_reset (q_array (s_L st)))
      in st\<lparr>s_L := (s_L st)\<lparr>q_array := soa\<rparr>, s_large_p := rest\<rparr>)"

text \<open>
  The three nested loops \<^verbatim>\<open>while (!quit)\<close>, innermost first. Each resets and refills
  its buffer, leaves with \<^verbatim>\<open>break\<close> when the buffer is too short, and otherwise runs
  the loop inside it, whose sieve it has reset; the innermost calls
  \<^verbatim>\<open>sieve_lattice_batch\<close> and stores what that returns in \<^verbatim>\<open>quit\<close>.
\<close>

fun special_q_loop ::
  "nat \<Rightarrow> env \<Rightarrow> locals \<Rightarrow> sieve_state \<Rightarrow> unit outcome \<times> sieve_state" where
  "special_q_loop 0 E V st = (OutOfFuel, st)"
| "special_q_loop (Suc n) E V st =
     (if s_quit st \<noteq> 0 then (Returns (), st)
      else if num_p (sq_array (s_L (refill_sq V st))) = 0 then (Returns (), refill_sq V st)
      else
        (case sieve_lattice_batch n E (s_L (refill_sq V st)) (v_lattice_size V)
                (v_threads_per_block V) (v_gpu_info V) (v_gpu_kernel V)
                (s_trace (refill_sq V st)) of
           (Returns r, tr') \<Rightarrow>
             special_q_loop n E V ((refill_sq V st)\<lparr>s_quit := r, s_trace := tr'\<rparr>)
         | (Faults f, tr') \<Rightarrow> (Faults f, (refill_sq V st)\<lparr>s_trace := tr'\<rparr>)
         | (OutOfFuel, tr') \<Rightarrow> (OutOfFuel, (refill_sq V st)\<lparr>s_trace := tr'\<rparr>)))"

fun small_p_loop ::
  "nat \<Rightarrow> env \<Rightarrow> locals \<Rightarrow> sieve_state \<Rightarrow> unit outcome \<times> sieve_state" where
  "small_p_loop 0 E V st = (OutOfFuel, st)"
| "small_p_loop (Suc n) E V st =
     (if s_quit st \<noteq> 0 then (Returns (), st)
      else if num_p (p_array (s_L (refill_p V st))) = 0 then (Returns (), refill_p V st)
      else
        (case special_q_loop n E V
                ((refill_p V st)\<lparr>s_special_q :=
                    v_sieve_special_q V (v_special_q_min V) (v_special_q_max V)\<rparr>) of
           (Returns u, st') \<Rightarrow> small_p_loop n E V st'
         | (out, st') \<Rightarrow> (out, st')))"

fun large_p_loop ::
  "nat \<Rightarrow> env \<Rightarrow> locals \<Rightarrow> sieve_state \<Rightarrow> unit outcome \<times> sieve_state" where
  "large_p_loop 0 E V st = (OutOfFuel, st)"
| "large_p_loop (Suc n) E V st =
     (if s_quit st \<noteq> 0 then (Returns (), st)
      else if num_p (q_array (s_L (refill_q V st))) < v_threads_per_block V
        then (Returns (), refill_q V st)
      else
        (case small_p_loop n E V
                ((refill_q V st)\<lparr>s_small_p :=
                    v_sieve_small_p V (v_small_p_min V) (v_small_p_max V)\<rparr>) of
           (Returns u, st') \<Rightarrow> large_p_loop n E V st'
         | (out, st') \<Rightarrow> (out, st')))"

text \<open>
  Before the loops the function allocates three staging buffers and three buffer
  structs on the host, three input buffers on the device, the output buffer on the
  host and on the device, and two arrays for each of the three batch buffers; behind
  the loops it releases the four device buffers and the thirteen host allocations.
\<close>

definition setup_events :: trace where
  "setup_events =
     replicate 6 HostAlloc @ replicate 3 DeviceAlloc @ [HostAlloc, DeviceAlloc]
       @ replicate 6 HostAlloc"

definition cleanup_events :: trace where
  "cleanup_events = replicate 4 DeviceFree @ replicate 13 HostFree"

definition sieve_specialq_64 ::
  "nat \<Rightarrow> env \<Rightarrow> gpu_info_t \<Rightarrow> sieve_fb_t \<Rightarrow> uint32 \<Rightarrow> uint32 \<Rightarrow> sieve_fb_t \<Rightarrow> uint32 \<Rightarrow> uint32
     \<Rightarrow> sieve_fb_t \<Rightarrow> uint32 \<Rightarrow> uint32 \<Rightarrow> trace \<Rightarrow> uint32 outcome \<times> trace" where
  "sieve_specialq_64 n E gpu_info sieve_special_q special_q_min special_q_max
       sieve_small_p small_p_min small_p_max sieve_large_p large_p_min large_p_max tr =
     (let gpu_kernel = (if large_p_max < 2 ^ 24 then sieve_kernel_48 else sieve_kernel_64);
          threads_per_block = max_threads_per_block E gpu_kernel;
          found_array_size = threads_per_block * num_compute_units gpu_info;
          host_p_batch_size = max 10000 (found_array_size div 3);
          host_q_batch_size = max 50000 (12 * found_array_size);
          host_sq_batch_size = SPECIALQ_BATCH_SIZE E * 12;
          V = \<lparr>v_threads_per_block = threads_per_block,
               v_host_p_batch_size = host_p_batch_size,
               v_host_q_batch_size = host_q_batch_size,
               v_host_sq_batch_size = host_sq_batch_size,
               v_lattice_size = lattice_size_of E special_q_max small_p_max,
               v_gpu_info = gpu_info, v_gpu_kernel = gpu_kernel,
               v_sieve_special_q = sieve_special_q,
               v_special_q_min = special_q_min, v_special_q_max = special_q_max,
               v_sieve_small_p = sieve_small_p,
               v_small_p_min = small_p_min, v_small_p_max = small_p_max\<rparr>;
          st = \<lparr>s_L = \<lparr>p_array = p_soa_var_init host_p_batch_size,
                       q_array = p_soa_var_init host_q_batch_size,
                       sq_array = p_soa_var_init host_sq_batch_size,
                       found_array_size = found_array_size\<rparr>,
                s_large_p = sieve_large_p large_p_min large_p_max,
                s_small_p = [], s_special_q = [], s_quit = 0,
                s_trace = tr @ setup_events\<rparr>
      in case large_p_loop n E V st of
           (Returns u, st') \<Rightarrow> (Returns (s_quit st'), s_trace st' @ cleanup_events)
         | (Faults f, st') \<Rightarrow> (Faults f, s_trace st')
         | (OutOfFuel, st') \<Rightarrow> (OutOfFuel, s_trace st'))"

subsection \<open>\<^verbatim>\<open>sieve_lattice_gpu_sq\<close>\<close>

text \<open>
  A value of type \<^verbatim>\<open>double\<close> is the real number that it holds. The operations
  \<^verbatim>\<open>/\<close>, \<^verbatim>\<open>*\<close> and \<^verbatim>\<open>sqrt\<close> on doubles round their results; how they round belongs
  to the platform, and the scanner takes it as a parameter: \<open>dbl_div\<close>, \<open>dbl_mul\<close> and
  \<open>dbl_sqrt\<close> give the double that the operation returns for finite operands with a
  finite result. Comparing two doubles and converting a \<^verbatim>\<open>uint32\<close> to \<^verbatim>\<open>double\<close>
  are exact.
\<close>

record double_ops =
  dbl_div :: "real \<Rightarrow> real \<Rightarrow> real"
  dbl_mul :: "real \<Rightarrow> real \<Rightarrow> real"
  dbl_sqrt :: "real \<Rightarrow> real"

text \<open>
  The conversion of a \<^verbatim>\<open>double\<close> to \<^verbatim>\<open>uint32\<close> drops the fraction; C leaves it
  undefined when the result does not fit, as it does for the infinity or NaN that a
  division by zero or the square root of a negative number gives.
\<close>

definition double_to_uint32 :: "real \<Rightarrow> uint32 option" where
  "double_to_uint32 d =
     (if - 1 < d \<and> d < 2 ^ 32 then Some (word_of_int (if 0 \<le> d then \<lfloor>d\<rfloor> else 0)) else None)"

text \<open>\<^verbatim>\<open>large_p_min * P_SCALE\<close> and \<^verbatim>\<open>small_p_max / P_SCALE\<close>, stored in a \<^verbatim>\<open>uint32\<close>.\<close>

definition product_to_uint32 :: "double_ops \<Rightarrow> env \<Rightarrow> uint32 \<Rightarrow> uint32 option" where
  "product_to_uint32 F E a = double_to_uint32 (dbl_mul F (real (unat a)) (P_SCALE E))"

definition quotient_to_uint32 :: "double_ops \<Rightarrow> env \<Rightarrow> uint32 \<Rightarrow> uint32 option" where
  "quotient_to_uint32 F E a =
     (if P_SCALE E = 0 then None
      else double_to_uint32 (dbl_div F (real (unat a)) (P_SCALE E)))"

text \<open>\<^verbatim>\<open>p_size_max /= special_q_max\<close> and \<^verbatim>\<open>(uint32)sqrt(p_size_max)\<close>.\<close>

definition sqrt_to_uint32 :: "double_ops \<Rightarrow> real \<Rightarrow> uint32 \<Rightarrow> uint32 option" where
  "sqrt_to_uint32 F p_size_max special_q_max =
     (if special_q_max = 0 \<or> dbl_div F p_size_max (real (unat special_q_max)) < 0 then None
      else double_to_uint32
             (dbl_sqrt F (dbl_div F p_size_max (real (unat special_q_max)))))"

text \<open>
  The two comparisons: \<^verbatim>\<open>(uint32)sqrt(p_size_max) * P_SCALE > (uint32)(-1)\<close> of the
  guard, on the square root already converted to \<^verbatim>\<open>uint32\<close>, and
  \<^verbatim>\<open>large_p_max > (uint32)(-1) / P_SCALE\<close> behind a round. A division by a
  \<^verbatim>\<open>P_SCALE\<close> of 0 gives infinity, which nothing exceeds.
\<close>

definition guard_fires :: "double_ops \<Rightarrow> env \<Rightarrow> uint32 \<Rightarrow> bool" where
  "guard_fires F E large_p_min \<longleftrightarrow>
     dbl_mul F (real (unat large_p_min)) (P_SCALE E) > 4294967295"

definition slide_overflows :: "double_ops \<Rightarrow> env \<Rightarrow> uint32 \<Rightarrow> bool" where
  "slide_overflows F E large_p_max \<longleftrightarrow>
     P_SCALE E \<noteq> 0 \<and> real (unat large_p_max) > dbl_div F 4294967295 (P_SCALE E)"

text \<open>
  The loop \<^verbatim>\<open>for (i = 0; i < 3; i++)\<close>: the line with the ranges, a round of
  \<^verbatim>\<open>sieve_specialq_64\<close>, the \<^verbatim>\<open>break\<close>, and the four assignments that slide the
  ranges. \<open>quit\<close> is what the last round returned.
\<close>

function scan_loop ::
  "nat \<Rightarrow> nat \<Rightarrow> double_ops \<Rightarrow> env \<Rightarrow> gpu_info_t \<Rightarrow> sieve_fb_t \<Rightarrow> uint32 \<Rightarrow> uint32 \<Rightarrow> sieve_fb_t \<Rightarrow> sieve_fb_t
     \<Rightarrow> uint32 \<Rightarrow> uint32 \<Rightarrow> uint32 \<Rightarrow> uint32 \<Rightarrow> uint32 \<Rightarrow> trace
     \<Rightarrow> uint32 outcome \<times> trace" where
  "scan_loop i n F E gpu_info sieve_special_q special_q_min special_q_max sieve_small_p sieve_large_p
       small_p_min small_p_max large_p_min large_p_max quit tr =
     (if i < 3 then
        (case sieve_specialq_64 n E gpu_info sieve_special_q special_q_min special_q_max
                sieve_small_p small_p_min small_p_max sieve_large_p large_p_min large_p_max
                (tr @ [PrintRanges special_q_min special_q_max small_p_min small_p_max
                         large_p_min large_p_max]) of
           (Faults f, tr') \<Rightarrow> (Faults f, tr')
         | (OutOfFuel, tr') \<Rightarrow> (OutOfFuel, tr')
         | (Returns q, tr') \<Rightarrow>
             if q \<noteq> 0 \<or> slide_overflows F E large_p_max then (Returns q, tr')
             else
               (case product_to_uint32 F E large_p_max of
                  None \<Rightarrow> (Faults ConversionOutOfRange, tr')
                | Some large_p_max' \<Rightarrow>
                    (case quotient_to_uint32 F E small_p_min of
                       None \<Rightarrow> (Faults ConversionOutOfRange, tr')
                     | Some small_p_min' \<Rightarrow>
                         scan_loop (i + 1) n F E gpu_info sieve_special_q special_q_min special_q_max
                           sieve_small_p sieve_large_p
                           small_p_min' small_p_min large_p_max large_p_max' q tr')))
      else (Returns quit, tr))"
  by pat_completeness auto
termination
  by (relation "measure (\<lambda>(i, _). 3 - i)") auto

declare scan_loop.simps [simp del]

text \<open>
  The function: the guard with its error message and \<^verbatim>\<open>return 0\<close>, the four
  bounds, the two sieves, the rounds, the release of the sieves, \<^verbatim>\<open>return quit\<close>.
\<close>

definition sieve_lattice_gpu_sq ::
  "nat \<Rightarrow> double_ops \<Rightarrow> env \<Rightarrow> gpu_info_t \<Rightarrow> real \<Rightarrow> sieve_fb_t \<Rightarrow> uint32 \<Rightarrow> uint32 \<Rightarrow> trace
     \<Rightarrow> uint32 outcome \<times> trace" where
  "sieve_lattice_gpu_sq n F E gpu_info p_size_max sieve_special_q special_q_min special_q_max tr =
     (case sqrt_to_uint32 F p_size_max special_q_max of
        None \<Rightarrow> (Faults ConversionOutOfRange, tr)
      | Some large_p_min \<Rightarrow>
          if guard_fires F E large_p_min then (Returns 0, tr @ [PrintError])
          else
            (case product_to_uint32 F E large_p_min of
               None \<Rightarrow> (Faults ConversionOutOfRange, tr)
             | Some large_p_max \<Rightarrow>
                 (case quotient_to_uint32 F E (large_p_min - 1) of
                    None \<Rightarrow> (Faults ConversionOutOfRange, tr)
                  | Some small_p_min \<Rightarrow>
                      (case scan_loop 0 n F E gpu_info sieve_special_q special_q_min special_q_max
                              (prime_sieve E) (prime_sieve E)
                              small_p_min (large_p_min - 1) large_p_min large_p_max 0
                              (tr @ [FbInit, FbInit]) of
                         (Returns quit, tr') \<Rightarrow> (Returns quit, tr' @ [FbFree, FbFree])
                       | (out, tr') \<Rightarrow> (out, tr')))))"

subsection \<open>Properties of traces\<close>

text \<open>
  \<open>extends P tr tr'\<close>: the trace \<open>tr'\<close> is \<open>tr\<close> with events added, and each added event
  satisfies \<open>P\<close> at its place in the trace. \<open>new_launches\<close> are the launches among the
  added events.
\<close>

definition extends :: "(nat \<Rightarrow> event \<Rightarrow> bool) \<Rightarrow> trace \<Rightarrow> trace \<Rightarrow> bool" where
  "extends P tr tr' \<longleftrightarrow>
     (\<exists>new. tr' = tr @ new \<and> (\<forall>i < length new. P (length tr + i) (new ! i)))"

definition new_launches :: "trace \<Rightarrow> trace \<Rightarrow> launch set" where
  "new_launches tr tr' = {l. Launch l \<in> set (drop (length tr) tr')}"

text \<open>What every launch of a call of \<^verbatim>\<open>sieve_lattice_batch\<close> satisfies.\<close>

definition launch_ok ::
  "env \<Rightarrow> lattice_fb_t \<Rightarrow> uint64 \<Rightarrow> uint32 \<Rightarrow> gpu_info_t \<Rightarrow> kernel \<Rightarrow> launch \<Rightarrow> bool" where
  "launch_ok E L lattice_size tpb gpu_info gpu_kernel l \<longleftrightarrow>
     l_kernel l = gpu_kernel \<and>
     l_params l = kernel_params (sizeof_ptr E) (sizeof_ptr E) \<and>
     l_lattice_size l = ucast lattice_size \<and>
     tpb \<noteq> 0 \<and>
     l_num_q_done l < num_p (q_array L) \<and>
     l_curr_num_q l = chunk_q E L tpb (l_num_q_done l) \<and>
     l_curr_num_q l \<noteq> 0 \<and>
     l_num_blocks l = grid_width L tpb gpu_info (l_curr_num_q l) \<and>
     l_num_p_done l < num_p (p_array L) \<and>
     l_curr_num_p l = chunk_p E L (l_num_p_done l) \<and>
     l_num_sq_done l < num_p (sq_array L) \<and>
     l_curr_num_sq l = chunk_sq E L (l_num_sq_done l)"

text \<open>
  An abort event is a read of the stop flag that found it set or a read of the clock
  that found the deadline passed. A list of events is quiet when it has none, and
  aborted when its last event is an abort event and the events before are quiet.
\<close>

definition is_abort :: "event \<Rightarrow> bool" where
  "is_abort e \<longleftrightarrow> e = StopPoll True \<or> e = TimePoll True"

definition quiet :: "trace \<Rightarrow> bool" where
  "quiet evs \<longleftrightarrow> (\<forall>e \<in> set evs. \<not> is_abort e)"

definition aborted :: "trace \<Rightarrow> bool" where
  "aborted evs \<longleftrightarrow> (\<exists>pre e. evs = pre @ [e] \<and> quiet pre \<and> is_abort e)"

definition flow_trace :: "flow \<Rightarrow> trace \<Rightarrow> bool" where
  "flow_trace fl new \<longleftrightarrow>
     (case fl of Return r \<Rightarrow> r = 1 \<and> aborted new | _ \<Rightarrow> quiet new)"

definition result_trace :: "uint32 outcome \<Rightarrow> trace \<Rightarrow> bool" where
  "result_trace res new \<longleftrightarrow>
     (case res of Returns r \<Rightarrow> (r = 0 \<and> quiet new) \<or> (r = 1 \<and> aborted new)
      | _ \<Rightarrow> quiet new)"

definition loop_trace :: "unit outcome \<Rightarrow> uint32 \<Rightarrow> trace \<Rightarrow> bool" where
  "loop_trace out q new \<longleftrightarrow>
     (case out of Returns u \<Rightarrow> (q = 0 \<and> quiet new) \<or> (q = 1 \<and> aborted new)
      | _ \<Rightarrow> q = 0 \<and> quiet new)"

text \<open>
  A poll event records what the flag or the clock said at the moment of the poll: the
  event at position \<open>k\<close> of the trace carries the environment's answer at time \<open>k\<close>.
\<close>

definition polls_read :: "env \<Rightarrow> nat \<Rightarrow> event \<Rightarrow> bool" where
  "polls_read E k e \<longleftrightarrow>
     (case e of StopPoll b \<Rightarrow> b = stop_sieving E k
      | TimePoll b \<Rightarrow> b = past_deadline E k
      | _ \<Rightarrow> True)"

text \<open>The number of (value, root) pairs that a sieve hands over.\<close>

definition candidates :: "item list \<Rightarrow> nat" where
  "candidates items = sum_list (map (\<lambda>(pv, roots). length roots) items)"

text \<open>
  The order of launches and polls in a call of \<^verbatim>\<open>sieve_lattice_batch\<close>, as an
  automaton over its events. \<open>Idle\<close>: no launch awaits its poll, at the start and after
  a read of the clock that found the deadline not passed. \<open>Reduce l\<close>: the launch \<open>l\<close>
  has been issued; the calls of the handler for its hits may follow, then the read of
  the stop flag. \<open>Sweep l\<close>: the flag was not set behind the launch \<open>l\<close>; when the
  special-q chunks of the small-p chunk are not finished, which is the loop test
  \<^verbatim>\<open>num_sq_done < sq_array->num_p\<close> on the counter advanced by the chunk, the next
  event is the next launch, and otherwise it is the read of the clock. \<open>Ended\<close>: a
  read has found the flag set or the deadline passed; no event follows.
\<close>

datatype phase = Idle | Reduce launch | Sweep launch | Ended

definition sweep_done :: "lattice_fb_t \<Rightarrow> launch \<Rightarrow> bool" where
  "sweep_done L l \<longleftrightarrow> \<not> l_num_sq_done l + l_curr_num_sq l < num_p (sq_array L)"

fun poll_step :: "lattice_fb_t \<Rightarrow> phase \<Rightarrow> event \<Rightarrow> phase option" where
  "poll_step L Idle (Launch l) = Some (Reduce l)"
| "poll_step L Idle (TimePoll b) = Some (if b then Ended else Idle)"
| "poll_step L (Reduce l) (Collision c) = Some (Reduce l)"
| "poll_step L (Reduce l) (StopPoll b) = Some (if b then Ended else Sweep l)"
| "poll_step L (Sweep l) (Launch l') = (if sweep_done L l then None else Some (Reduce l'))"
| "poll_step L (Sweep l) (TimePoll b) =
     (if sweep_done L l then Some (if b then Ended else Idle) else None)"
| "poll_step L ph e = None"

fun poll_run :: "lattice_fb_t \<Rightarrow> phase \<Rightarrow> trace \<Rightarrow> phase option" where
  "poll_run L ph [] = Some ph"
| "poll_run L ph (e # es) =
     (case poll_step L ph e of None \<Rightarrow> None | Some ph' \<Rightarrow> poll_run L ph' es)"

definition swept :: "lattice_fb_t \<Rightarrow> phase \<Rightarrow> bool" where
  "swept L ph \<longleftrightarrow> ph = Idle \<or> (\<exists>l. ph = Sweep l \<and> sweep_done L l)"

definition flow_phase :: "flow \<Rightarrow> phase \<Rightarrow> bool" where
  "flow_phase fl ph \<longleftrightarrow>
     (case fl of Next \<Rightarrow> ph = Idle | Return r \<Rightarrow> r = 1 \<and> ph = Ended | _ \<Rightarrow> True)"

text \<open>
  The rounds of a scan are read off the lines that it prints, one before each call of
  \<^verbatim>\<open>sieve_specialq_64\<close> and with the bounds handed to that call: the small range
  and the large range, each as minimum and maximum.
\<close>

type_synonym ranges = "uint32 \<times> uint32 \<times> uint32 \<times> uint32"

fun ranges_of :: "event \<Rightarrow> ranges list" where
  "ranges_of (PrintRanges sqmin sqmax spmin spmax lpmin lpmax) = [(spmin, spmax, lpmin, lpmax)]"
| "ranges_of e = []"

definition rounds :: "trace \<Rightarrow> ranges list" where
  "rounds evs = concat (map ranges_of evs)"

definition large_max :: "ranges \<Rightarrow> uint32" where
  "large_max r = snd (snd (snd r))"

text \<open>
  One slide: from the small range \<open>[c, d]\<close> and the large range \<open>[a, b]\<close> to the small
  range \<open>[c / s, c]\<close> and the large range \<open>[b, b \<sqdot> s]\<close>, with \<open>s\<close> for \<^verbatim>\<open>P_SCALE\<close> and
  the product and the quotient converted to \<^verbatim>\<open>uint32\<close>. In a chain of rounds each
  round but the last has not met the overflow test and is followed by its slide.
\<close>

definition slides :: "double_ops \<Rightarrow> env \<Rightarrow> ranges \<Rightarrow> ranges \<Rightarrow> bool" where
  "slides F E r r' \<longleftrightarrow>
     (case r of (c, d, a, b) \<Rightarrow> case r' of (c', d', a', b') \<Rightarrow>
        a' = b \<and> double_to_uint32 (dbl_mul F (real (unat b)) (P_SCALE E)) = Some b' \<and>
        d' = c \<and> P_SCALE E \<noteq> 0 \<and>
        double_to_uint32 (dbl_div F (real (unat c)) (P_SCALE E)) = Some c')"

fun chain :: "double_ops \<Rightarrow> env \<Rightarrow> ranges list \<Rightarrow> bool" where
  "chain F E (r # r' # rs) \<longleftrightarrow>
     \<not> slide_overflows F E (large_max r) \<and> slides F E r r' \<and> chain F E (r' # rs)"
| "chain F E rs \<longleftrightarrow> True"

text \<open>
  A list of events is stopped when it has an abort event with quiet events before it
  and nothing but releases behind it. The result of a scan fits its events when it
  is 0 and they are quiet, or 1 and they are stopped; a scan that ends in a fault or
  is cut off by the fuel has quiet events.
\<close>

definition releases :: "trace \<Rightarrow> bool" where
  "releases evs \<longleftrightarrow> set evs \<subseteq> {HostFree, DeviceFree, FbFree}"

definition stopped :: "trace \<Rightarrow> bool" where
  "stopped evs \<longleftrightarrow>
     (\<exists>pre e post. evs = pre @ e # post \<and> quiet pre \<and> is_abort e \<and> releases post)"

definition scan_result :: "uint32 outcome \<Rightarrow> trace \<Rightarrow> bool" where
  "scan_result res new \<longleftrightarrow>
     (case res of Returns q \<Rightarrow> (q = 0 \<and> quiet new) \<or> (q = 1 \<and> stopped new)
      | _ \<Rightarrow> quiet new)"

text \<open>
  What holds of the events \<open>new\<close> that the loop of the scan adds when it is entered
  with the counter \<open>i\<close>, the ranges \<open>r\<close> and \<open>quit\<close>.
\<close>

definition scan_inv ::
  "double_ops \<Rightarrow> env \<Rightarrow> nat \<Rightarrow> ranges \<Rightarrow> uint32 \<Rightarrow> uint32 outcome \<Rightarrow> trace \<Rightarrow> bool" where
  "scan_inv F E i r quit res new \<longleftrightarrow>
     (if 3 \<le> i then new = [] \<and> res = Returns quit
      else (\<exists>rs. rounds new = r # rs \<and> length rs \<le> 2 - i) \<and> chain F E (rounds new)
         \<and> scan_result res new
         \<and> (res = Returns 0 \<and> \<not> slide_overflows F E (large_max (last (rounds new)))
              \<longrightarrow> length (rounds new) = 3 - i))"

subsection \<open>A small run\<close>

text \<open>
  An environment in which nothing stops the sieve and the kernel reports no hit, and
  buffers with three large values, one small value and one special-q. With two threads
  in a block the first large chunk is 2, which is below the four records of the output
  buffer, and the third large value is left over.
\<close>

definition ex_env :: env where
  "ex_env =
     \<lparr>stop_sieving = (\<lambda>k. False), past_deadline = (\<lambda>k. False),
      found_output = (\<lambda>k i. \<lparr>f_p = 0, f_q = 0, f_k = 0, f_offset = 0, f_proot = 0\<rparr>),
      max_threads_per_block = (\<lambda>g. 2), lattice_size_of = (\<lambda>a b. 7),
      prime_sieve = (\<lambda>lo hi. [(lo, [1])]),
      P_SOA_BATCH_SIZE = 2, Q_SOA_BATCH_SIZE = 4, SPECIALQ_BATCH_SIZE = 2,
      P_SCALE = 3 / 2, sizeof_ptr = 8\<rparr>"

definition ex_L :: lattice_fb_t where
  "ex_L =
     \<lparr>p_array = \<lparr>num_p = 1, num_p_alloc = 1, soa_p = [3], soa_root = [1]\<rparr>,
      q_array = \<lparr>num_p = 3, num_p_alloc = 3, soa_p = [5, 5, 7], soa_root = [2, 3, 1]\<rparr>,
      sq_array = \<lparr>num_p = 1, num_p_alloc = 1, soa_p = [2], soa_root = [1]\<rparr>,
      found_array_size = 4\<rparr>"

definition ex_launch :: launch where
  "ex_launch =
     \<lparr>l_kernel = sieve_kernel_48,
      l_params = \<lparr>gpu_p_array_offset = 0, num_p_offset = 8, gpu_q_array_offset = 16,
                  num_q_offset = 24, gpu_sq_array_offset = 32, num_sq_offset = 40,
                  lattice_size_offset = 48, gpu_found_array_offset = 56, param_size = 64\<rparr>,
      l_lattice_size = 7, l_num_q_done = 0, l_curr_num_q = 2, l_num_blocks = 1,
      l_num_p_done = 0, l_curr_num_p = 1, l_num_sq_done = 0, l_curr_num_sq = 1\<rparr>"

text \<open>A sieve that hands over one value with one root, whatever the range.\<close>

definition ex_sieve :: sieve_fb_t where
  "ex_sieve lo hi = [(lo, [1])]"

text \<open>The same environment with the stop flag set from the start.\<close>

definition ex_stop_env :: env where
  "ex_stop_env = ex_env\<lparr>stop_sieving := (\<lambda>k. True)\<rparr>"


text \<open>
  A sieve that hands over one value with two roots, and the environment in which the
  deadline has passed from the start.
\<close>

definition ex_sieve2 :: sieve_fb_t where
  "ex_sieve2 lo hi = [(lo, [1, 2])]"

definition ex_deadline_env :: env where
  "ex_deadline_env = ex_env\<lparr>past_deadline := (\<lambda>k. True)\<rparr>"


text \<open>
  Operations on doubles that do not round. In the runs below rounding to the nearest
  double changes no converted value: each exact result is either a double itself,
  which rounding leaves as it is, or not within \<open>1 / 4\<close> of an integer, so that
  rounding keeps its integer part.
\<close>

definition exact_ops :: double_ops where
  "exact_ops = \<lparr>dbl_div = (\<lambda>a b. a / b), dbl_mul = (\<lambda>a b. a * b), dbl_sqrt = sqrt\<rparr>"



subsection \<open>Facts about the batch buffer\<close>

lemma store_loop_spec:
  assumes "soa_wf soa" "unat num_roots \<le> length roots"
  shows "let k = min (unat num_roots - unat i) (unat (num_p_alloc soa) - unat (num_p soa));
             soa' = store_loop i pv num_roots roots soa
         in unat (num_p soa') = unat (num_p soa) + k
          \<and> valid_p soa' = valid_p soa @ replicate k pv
          \<and> valid_root soa' = valid_root soa @ take k (drop (unat i) roots)
          \<and> num_p_alloc soa' = num_p_alloc soa \<and> soa_wf soa'"
  using assms
proof (induction i pv num_roots roots soa rule: store_loop.induct)
  case (1 i pv num_roots roots soa)
  show ?case
  proof (cases "i < num_roots \<and> num_p soa < num_p_alloc soa")
    case False
    then have "min (unat num_roots - unat i) (unat (num_p_alloc soa) - unat (num_p soa)) = 0"
      by (auto simp: word_less_nat_alt min_def)
    moreover have "store_loop i pv num_roots roots soa = soa"
      using False by (subst store_loop.simps) (simp only: if_False)
    ultimately show ?thesis using 1(2)
      by (simp add: Let_def)
  next
    case True
    let ?s1 = "soa\<lparr>soa_p := (soa_p soa)[unat (num_p soa) := pv],
                soa_root := (soa_root soa)[unat (num_p soa) := roots ! unat i],
                num_p := num_p soa + 1\<rparr>"
    from True have ui: "unat (i + 1) = Suc (unat i)"
      and un: "unat (num_p soa + 1) = Suc (unat (num_p soa))"
      by (auto intro: unat_inc_lt)
    from True have lt: "unat i < unat num_roots" "unat (num_p soa) < unat (num_p_alloc soa)"
      by (simp_all add: word_less_nat_alt)
    have wf1: "soa_wf ?s1" using 1(2) by (simp add: soa_wf_def)
    note IH = "1.IH" [OF True wf1 1(3), unfolded Let_def]
    have eq: "store_loop i pv num_roots roots soa = store_loop (i + 1) pv num_roots roots ?s1"
      using True by (subst store_loop.simps) (simp only: simp_thms if_True)
    have k: "min (unat num_roots - unat i) (unat (num_p_alloc soa) - unat (num_p soa))
           = Suc (min (unat num_roots - Suc (unat i))
                      (unat (num_p_alloc soa) - Suc (unat (num_p soa))))"
      using lt by arith
    have vp: "valid_p ?s1 = valid_p soa @ [pv]"
      using lt 1(2) by (simp add: valid_p_def un soa_wf_def take_Suc_conv_app_nth)
    have vr: "valid_root ?s1 = valid_root soa @ [roots ! unat i]"
      using lt 1(2) by (simp add: valid_root_def un soa_wf_def take_Suc_conv_app_nth)
    have "unat i < length roots" using lt 1(3) by linarith
    then have "drop (unat i) roots = roots ! unat i # drop (Suc (unat i)) roots"
      by (simp add: Cons_nth_drop_Suc)
    then have dr: "roots ! unat i # take n (drop (Suc (unat i)) roots)
                 = take (Suc n) (drop (unat i) roots)" for n
      by simp
    show ?thesis
      unfolding Let_def eq k
      using IH
      by (simp add: ui un vp vr replicate_app_Cons_same dr [symmetric] del: take_Suc_Cons)
  qed
qed

lemma store_p_soa_spec:
  assumes "soa_wf soa" "unat num_roots \<le> length roots"
  shows "unat (num_p (store_p_soa pv num_roots roots soa))
           = unat (num_p soa) + min (unat num_roots) (unat (num_p_alloc soa) - unat (num_p soa))"
    and "entries (store_p_soa pv num_roots roots soa)
           = entries soa @ map (Pair pv)
               (take (min (unat num_roots) (unat (num_p_alloc soa) - unat (num_p soa))) roots)"
    and "num_p_alloc (store_p_soa pv num_roots roots soa) = num_p_alloc soa"
    and "soa_wf (store_p_soa pv num_roots roots soa)"
proof -
  let ?k = "min (unat num_roots) (unat (num_p_alloc soa) - unat (num_p soa))"
  let ?s = "store_p_soa pv num_roots roots soa"
  note sp = store_loop_spec [OF assms, of 0 pv, unfolded Let_def, simplified,
      folded store_p_soa_def]
  from sp show "unat (num_p ?s) = unat (num_p soa) + ?k" by simp
  from sp show "num_p_alloc ?s = num_p_alloc soa" by simp
  from sp show "soa_wf ?s" by simp
  have len: "length (valid_p soa) = length (valid_root soa)"
    using assms(1) by (simp add: valid_p_def valid_root_def soa_wf_def)
  have "entries ?s = zip (valid_p soa @ replicate ?k pv) (valid_root soa @ take ?k roots)"
    using sp by (simp add: entries_def)
  also have "\<dots> = entries soa @ zip (replicate ?k pv) (take ?k roots)"
    using len by (simp add: entries_def)
  also have "zip (replicate ?k pv) (take ?k roots) = map (Pair pv) (take ?k roots)"
    by (simp add: zip_replicate1)
  finally show "entries ?s = entries soa @ map (Pair pv) (take ?k roots)" .
qed

lemma store_p_soa_le_alloc:
  assumes "soa_wf soa" "unat num_roots \<le> length roots" "num_p soa \<le> num_p_alloc soa"
  shows "num_p (store_p_soa pv num_roots roots soa)
           \<le> num_p_alloc (store_p_soa pv num_roots roots soa)"
proof -
  have "unat (num_p soa) \<le> unat (num_p_alloc soa)"
    using assms(3) by (simp add: word_le_nat_alt)
  then show ?thesis
    using store_p_soa_spec(1,3) [OF assms(1,2), of pv]
    by (simp add: word_le_nat_alt)
qed

lemma reset_wf: "soa_wf soa \<Longrightarrow> soa_wf (p_soa_var_reset soa)"
  by (simp add: soa_wf_def p_soa_var_reset_def)

lemma reset_entries: "entries (p_soa_var_reset soa) = []"
  by (simp add: entries_def valid_p_def p_soa_var_reset_def)

text \<open>
  C4. An append stores exactly \<open>min(rootCount, capacity - count)\<close> pairs, in order,
  behind the pairs already there, and nothing else changes; so the count stays at or
  below the capacity. A reset puts the count to 0 and keeps the capacity and both
  arrays, and an append after a reset leaves in the valid part exactly the pairs of
  that append.
\<close>

theorem store_p_soa_bounded_append:
  assumes "soa_wf soa" and "unat num_roots \<le> length roots"
  shows "let k = min (unat num_roots) (unat (num_p_alloc soa) - unat (num_p soa));
             soa' = store_p_soa pv num_roots roots soa;
             soa0 = p_soa_var_reset soa
         in unat (num_p soa') = unat (num_p soa) + k
          \<and> entries soa' = entries soa @ map (Pair pv) (take k roots)
          \<and> num_p_alloc soa' = num_p_alloc soa
          \<and> (num_p soa \<le> num_p_alloc soa \<longrightarrow> num_p soa' \<le> num_p_alloc soa')
          \<and> num_p soa0 = 0 \<and> num_p_alloc soa0 = num_p_alloc soa
          \<and> soa_p soa0 = soa_p soa \<and> soa_root soa0 = soa_root soa
          \<and> entries (store_p_soa pv num_roots roots soa0)
               = map (Pair pv) (take (min (unat num_roots) (unat (num_p_alloc soa))) roots)"
proof -
  have r: "entries (store_p_soa pv num_roots roots (p_soa_var_reset soa))
             = map (Pair pv) (take (min (unat num_roots) (unat (num_p_alloc soa))) roots)"
    using store_p_soa_spec(2) [OF reset_wf [OF assms(1)] assms(2), of pv]
    by (simp add: reset_entries) (simp add: p_soa_var_reset_def)
  show ?thesis
    unfolding Let_def
    using store_p_soa_spec [OF assms, of pv] store_p_soa_le_alloc [OF assms, of pv] r
    by (simp add: p_soa_var_reset_def)
qed

theorem store_p_soa_bounded_append_witness:
  "soa_wf \<lparr>num_p = 4, num_p_alloc = 5, soa_p = [1, 1, 1, 1, 0], soa_root = [9, 9, 9, 9, 0]\<rparr>
   \<and> unat (3 :: uint32) \<le> length [21, 22, 23 :: uint64]
   \<and> num_p (store_p_soa 7 3 [21, 22, 23]
        \<lparr>num_p = 4, num_p_alloc = 5, soa_p = [1, 1, 1, 1, 0], soa_root = [9, 9, 9, 9, 0]\<rparr>) = 5
   \<and> entries (store_p_soa 7 3 [21, 22, 23]
        \<lparr>num_p = 4, num_p_alloc = 5, soa_p = [1, 1, 1, 1, 0], soa_root = [9, 9, 9, 9, 0]\<rparr>)
       = [(1, 9), (1, 9), (1, 9), (1, 9), (7, 21)]"
proof -
  let ?s = "\<lparr>num_p = 4, num_p_alloc = 5, soa_p = [1, 1, 1, 1, 0 :: uint32],
             soa_root = [9, 9, 9, 9, 0 :: uint64]\<rparr>"
  have wf: "soa_wf ?s" by (simp add: soa_wf_def)
  have n: "unat (3 :: uint32) \<le> length [21, 22, 23 :: uint64]" by simp
  have e: "entries ?s = [(1, 9), (1, 9), (1, 9), (1, 9)]"
    by (simp add: entries_def valid_p_def valid_root_def)
  have "unat (num_p (store_p_soa 7 3 [21, 22, 23] ?s)) = 5
      \<and> entries (store_p_soa 7 3 [21, 22, 23] ?s) = entries ?s @ [(7, 21)]"
    using store_p_soa_bounded_append [OF wf n, of 7] unfolding Let_def by simp
  then have "num_p (store_p_soa 7 3 [21, 22, 23] ?s) = 5"
    and "entries (store_p_soa 7 3 [21, 22, 23] ?s) = [(1, 9), (1, 9), (1, 9), (1, 9), (7, 21)]"
    unfolding e by (simp_all add: word_unat_eq_iff)
  with wf show ?thesis by simp
qed

subsection \<open>Facts about the reducer\<close>

lemma val128_to128: "val128 (to128 n) = n mod 2 ^ 128"
proof -
  have a: "n mod 2 ^ 128 = 2 ^ 32 * (n div 2 ^ 32 mod 2 ^ 96) + n mod 2 ^ 32"
    using mod_mult2_eq [of n "2 ^ 32" "2 ^ 96"] by simp
  have b: "n div 2 ^ 32 mod 2 ^ 96
         = 2 ^ 32 * (n div 2 ^ 64 mod 2 ^ 64) + n div 2 ^ 32 mod 2 ^ 32"
    using mod_mult2_eq [of "n div 2 ^ 32" "2 ^ 32" "2 ^ 64"]
    by (simp add: div_mult2_eq [symmetric])
  have c: "n div 2 ^ 64 mod 2 ^ 64
         = 2 ^ 32 * (n div 2 ^ 96 mod 2 ^ 32) + n div 2 ^ 64 mod 2 ^ 32"
    using mod_mult2_eq [of "n div 2 ^ 64" "2 ^ 32" "2 ^ 32"]
    by (simp add: div_mult2_eq [symmetric])
  have v: "val128 (to128 n) = n mod 2 ^ 32 + 2 ^ 32 * (n div 2 ^ 32 mod 2 ^ 32)
      + 2 ^ 64 * (n div 2 ^ 64 mod 2 ^ 32) + 2 ^ 96 * (n div 2 ^ 96 mod 2 ^ 32)"
    by (simp add: val128_def to128_def unat_of_nat)
  have lin: "A + 2 ^ 32 * B + 2 ^ 64 * C + 2 ^ 96 * D
           = 2 ^ 32 * (2 ^ 32 * (2 ^ 32 * D + C) + B) + A" for A B C D :: nat
    by simp
  show ?thesis
    unfolding a b c v by (rule lin)
qed

lemma unat_split32:
  "unat (ucast (x::uint64) :: uint32) + 2 ^ 32 * unat (ucast (drop_bit 32 x) :: uint32) = unat x"
proof -
  have "unat (ucast x :: uint32) = unat x mod 2 ^ 32"
    by (simp add: unsigned_ucast_eq take_bit_eq_mod)
  moreover have "unat (ucast (drop_bit 32 x) :: uint32) = unat x div 2 ^ 32 mod 2 ^ 32"
    by (simp add: unsigned_ucast_eq take_bit_eq_mod unat_drop_bit_eq drop_bit_eq_div unat_div)
  moreover have "unat x div 2 ^ 32 < 2 ^ 32"
    using unsigned_less [of x, where 'a=nat] by (simp add: less_mult_imp_div_less)
  ultimately show ?thesis by simp
qed

lemma unat_sqr32: "unat (ucast (pv::uint32) * ucast pv :: uint64) = unat pv * unat pv"
proof -
  have lt: "unat pv < 2 ^ 32" using unsigned_less [of pv, where 'a=nat] by simp
  then have "unat pv * unat pv < 2 ^ 32 * 2 ^ 32"
    by (intro mult_strict_mono) simp_all
  moreover have u: "unat (ucast pv :: uint64) = unat pv"
    using lt by (simp add: unsigned_ucast_eq take_bit_nat_eq_self)
  ultimately have "unat (ucast pv :: uint64) * unat (ucast pv :: uint64) < 2 ^ LENGTH(64)"
    by simp
  then have "unat (ucast pv * ucast pv :: uint64)
           = unat (ucast pv :: uint64) * unat (ucast pv :: uint64)"
    by (simp only: unat_mult_lem)
  then show ?thesis by (simp only: u)
qed

text \<open>
  The residue is the exact sum: \<open>0 \<le> proot < 2\<^sup>6\<^sup>4\<close>, \<open>- 2\<^sup>6\<^sup>3 \<le> offset < 2\<^sup>6\<^sup>3\<close> and
  \<open>p\<^sup>2 \<le> (2\<^sup>3\<^sup>2 - 1)\<^sup>2\<close>, so the product and the sum lie strictly between \<open>- 2\<^sup>1\<^sup>2\<^sup>7\<close>
  and \<open>2\<^sup>1\<^sup>2\<^sup>7\<close>.
\<close>

lemma residue_range:
  fixes r :: uint64 and a :: int64 and pv :: uint32
  shows "- (2 ^ 127) < uint r + sint a * (uint pv * uint pv)"
    and "uint r + sint a * (uint pv * uint pv) < 2 ^ 127"
proof -
  let ?p = "uint pv" and ?o = "sint a" and ?r = "uint r"
  have p0: "0 \<le> ?p" by simp
  have "?p < 2 ^ 32" using unsigned_less [of pv, where 'a=int] by simp
  then have p: "?p \<le> 2 ^ 32 - 1" by linarith
  have pp0: "0 \<le> ?p * ?p" by simp
  have pp: "?p * ?p \<le> (2 ^ 32 - 1) * (2 ^ 32 - 1)"
    by (rule mult_mono [OF p p]) (use p0 in simp_all)
  have ol: "- (2 ^ 63) \<le> ?o" using sint_ge [of a] by simp
  have "?o < 2 ^ 63" using sint_lt [of a] by simp
  then have ou: "?o \<le> 2 ^ 63 - 1" by linarith
  have r0: "0 \<le> ?r" by simp
  have "?r < 2 ^ 64" using unsigned_less [of r, where 'a=int] by simp
  then have r: "?r \<le> 2 ^ 64 - 1" by linarith
  have up: "?o * (?p * ?p) \<le> (2 ^ 63 - 1) * ((2 ^ 32 - 1) * (2 ^ 32 - 1))"
  proof (cases "0 \<le> ?o")
    case True
    show ?thesis by (rule mult_mono [OF ou pp]) (use True pp0 in simp_all)
  next
    case False
    then have "?o * (?p * ?p) \<le> 0" using pp0 by (simp add: mult_le_0_iff)
    then show ?thesis by simp
  qed
  have lo: "- (2 ^ 63 * ((2 ^ 32 - 1) * (2 ^ 32 - 1))) \<le> ?o * (?p * ?p)"
  proof (cases "0 \<le> ?o")
    case True
    then have "0 \<le> ?o * (?p * ?p)" using pp0 by simp
    then show ?thesis by simp
  next
    case False
    then have n0: "0 \<le> - ?o" by simp
    have nu: "- ?o \<le> 2 ^ 63" using ol by simp
    have "(- ?o) * (?p * ?p) \<le> 2 ^ 63 * ((2 ^ 32 - 1) * (2 ^ 32 - 1))"
      by (rule mult_mono [OF nu pp]) (use pp0 in simp_all)
    then show ?thesis by simp
  qed
  have "- (2 ^ 127) < - (2 ^ 63 * ((2 ^ 32 - 1) * (2 ^ 32 - 1)) :: int)" by simp
  with lo r0 show "- (2 ^ 127) < ?r + ?o * (?p * ?p)" by linarith
  have "2 ^ 64 - 1 + (2 ^ 63 - 1) * ((2 ^ 32 - 1) * (2 ^ 32 - 1)) < (2 ^ 127 :: int)" by simp
  with up r show "?r + ?o * (?p * ?p) < 2 ^ 127" by linarith
qed

lemma uint_sqr32: "uint (ucast (pv::uint32) * ucast pv :: uint64) = uint pv * uint pv"
proof -
  have "int (unat (ucast pv * ucast pv :: uint64)) = int (unat pv * unat pv)"
    by (simp only: unat_sqr32)
  then show ?thesis by simp
qed

lemma residue_low_bits:
  "int (val128 (residue f))
     = (uint (f_proot f) + sint (f_offset f) * (uint (f_p f) * uint (f_p f))) mod 2 ^ 128"
proof -
  let ?m = "sint (f_offset f) * (uint (f_p f) * uint (f_p f))"
  have r: "val128 [ucast (f_proot f), ucast (drop_bit 32 (f_proot f)), 0, 0]
             = unat (f_proot f)"
    using unat_split32 [of "f_proot f"] by (simp add: val128_def)
  have m: "int (val128 (mul64 (f_offset f) (ucast (f_p f) * ucast (f_p f)))) = ?m mod 2 ^ 128"
  proof -
    have "nat (?m mod 2 ^ 128) < 2 ^ 128"
      using pos_mod_bound [of "2 ^ 128" ?m] by (simp add: nat_less_iff)
    then show ?thesis by (simp add: mul64_def val128_to128 uint_sqr32)
  qed
  have "int (val128 (residue f))
      = (int (unat (f_proot f))
          + int (val128 (mul64 (f_offset f) (ucast (f_p f) * ucast (f_p f))))) mod 2 ^ 128"
    by (simp add: residue_def Let_def add128_def val128_to128 r zmod_int)
  also have "\<dots> = (uint (f_proot f) + ?m mod 2 ^ 128) mod 2 ^ 128"
    by (simp only: m) simp
  also have "\<dots> = (uint (f_proot f) + ?m) mod 2 ^ 128"
    by (rule mod_add_right_eq)
  finally show ?thesis .
qed

lemma residue_exact:
  "sval128 (residue f)
     = uint (f_proot f) + sint (f_offset f) * (uint (f_p f) * uint (f_p f))"
proof -
  let ?s = "uint (f_proot f) + sint (f_offset f) * (uint (f_p f) * uint (f_p f))"
  note b = residue_range [of "f_proot f" "f_offset f" "f_p f"]
  have v: "int (val128 (residue f)) = ?s mod 2 ^ 128" by (rule residue_low_bits)
  show ?thesis
  proof (cases "0 \<le> ?s")
    case True
    with b(2) have "?s mod 2 ^ 128 = ?s" by (simp add: mod_pos_pos_trivial)
    with v b(2) show ?thesis by (simp add: sval128_def)
  next
    case False
    then have "0 \<le> ?s + 2 ^ 128" "?s + 2 ^ 128 < 2 ^ 128" using b(1) by simp_all
    then have "(?s + 2 ^ 128) mod 2 ^ 128 = ?s + 2 ^ 128" by (rule mod_pos_pos_trivial)
    then have "?s mod 2 ^ 128 = ?s + 2 ^ 128" by simp
    with v b(1) show ?thesis by (simp add: sval128_def)
  qed
qed

lemma check_loop_spec:
  assumes "unat n \<le> length A"
    and "\<forall>f \<in> set (hits (drop (unat i) (take (unat n) A))).
           unat (f_k f + off) < length (soa_p sq) \<and> unat (f_k f + off) < length (soa_root sq)"
  shows "check_loop i sq A n off calls
           = Inr (calls @ map (collision_of sq off) (hits (drop (unat i) (take (unat n) A))))"
  using assms
proof (induction i sq A n off calls rule: check_loop.induct)
  case (1 i sq A n off calls)
  show ?case
  proof (cases "i < n")
    case False
    then have "drop (unat i) (take (unat n) A) = []"
      by (simp add: word_less_nat_alt)
    moreover have "check_loop i sq A n off calls = Inr calls"
      using False by (subst check_loop.simps) (simp only: if_False)
    ultimately show ?thesis by (simp add: hits_def)
  next
    case True
    then have lt: "unat i < unat n" by (simp add: word_less_nat_alt)
    with "1.prems"(1) have inb: "unat i < length A" by linarith
    have ui: "unat (i + 1) = Suc (unat i)" using True by (rule unat_inc_lt)
    have dr: "drop (unat i) (take (unat n) A)
            = A ! unat i # drop (unat (i + 1)) (take (unat n) A)"
      using lt inb by (simp add: ui Cons_nth_drop_Suc [symmetric])
    show ?thesis
    proof (cases "f_p (A ! unat i) = 0")
      case z: True
      have "check_loop i sq A n off calls = check_loop (i + 1) sq A n off calls"
        using True inb z by (subst check_loop.simps) (simp add: Let_def)
      also have "\<dots> = Inr (calls @ map (collision_of sq off)
                              (hits (drop (unat (i + 1)) (take (unat n) A))))"
        using "1.prems" z by (intro "1.IH"(1) [OF True inb refl z]) (simp_all add: dr hits_def)
      finally show ?thesis using z by (simp add: dr hits_def)
    next
      case nz: False
      have ok: "unat (f_k (A ! unat i) + off) < length (soa_p sq)
              \<and> unat (f_k (A ! unat i) + off) < length (soa_root sq)"
        using "1.prems"(2) nz by (simp add: dr hits_def)
      have "check_loop i sq A n off calls
              = check_loop (i + 1) sq A n off (calls @ [collision_of sq off (A ! unat i)])"
        using True inb nz ok by (subst check_loop.simps) (simp add: Let_def)
      also have "\<dots> = Inr ((calls @ [collision_of sq off (A ! unat i)])
                    @ map (collision_of sq off) (hits (drop (unat (i + 1)) (take (unat n) A))))"
        using "1.prems" nz ok
        by (intro "1.IH"(2) [OF True inb refl nz ok]) (simp_all add: dr hits_def)
      finally show ?thesis using nz by (simp add: dr hits_def)
    qed
  qed
qed

text \<open>
  C1. Over the \<^verbatim>\<open>found_array_size\<close> records that were copied back, the reducer calls
  the handler once for each record with \<^verbatim>\<open>p != 0\<close>, in the order of the array, and
  not at all for a record with \<^verbatim>\<open>p == 0\<close>; each call carries the record's \<^verbatim>\<open>p\<close> and
  \<^verbatim>\<open>q\<close>, the special-q pair at index \<^verbatim>\<open>k + sq_offset\<close>, and a 128-bit residue that,
  read as a signed 128-bit number, is exactly the integer \<open>proot + offset \<sqdot> p\<^sup>2\<close>, with
  \<open>proot\<close> and \<open>p\<close> unsigned and \<open>offset\<close> signed; its 128 bits are that integer modulo
  \<open>2\<^sup>1\<^sup>2\<^sup>8\<close>. The indices \<^verbatim>\<open>k + sq_offset\<close> of the hits are taken to lie inside the
  special-q arrays.
\<close>

theorem check_found_exact_residue:
  assumes "unat n_found \<le> length found"
    and "\<forall>f \<in> set (hits (take (unat n_found) found)).
           unat (f_k f + off) < length (soa_p sq) \<and>
           unat (f_k f + off) < length (soa_root sq)"
  shows "\<exists>calls. check_found sq found n_found off = Inr calls
     \<and> map c_p calls = map f_p (hits (take (unat n_found) found))
     \<and> map c_q calls = map f_q (hits (take (unat n_found) found))
     \<and> map c_special_q calls
         = map (\<lambda>f. soa_p sq ! unat (f_k f + off))
             (hits (take (unat n_found) found))
     \<and> map c_special_q_root calls
         = map (\<lambda>f. soa_root sq ! unat (f_k f + off))
             (hits (take (unat n_found) found))
     \<and> map (\<lambda>c. sval128 (c_res c)) calls
         = map (\<lambda>f. uint (f_proot f) + sint (f_offset f) * (uint (f_p f))\<^sup>2)
             (hits (take (unat n_found) found))
     \<and> map (\<lambda>c. int (val128 (c_res c))) calls
         = map (\<lambda>f. (uint (f_proot f) + sint (f_offset f) * (uint (f_p f))\<^sup>2) mod 2 ^ 128)
             (hits (take (unat n_found) found))"
proof -
  have "check_found sq found n_found off
      = Inr (map (collision_of sq off)
               (hits (take (unat n_found) found)))"
    unfolding check_found_def
    using check_loop_spec [of n_found found 0 off sq "[]"] assms
    by simp
  then show ?thesis
    by (simp add: collision_of_def residue_exact residue_low_bits power2_eq_square comp_def)
qed

text \<open>
  Four records: one without a hit, one whose product \<open>2\<^sup>4\<^sup>0 \<sqdot> (2\<^sup>3\<^sup>2 - 1)\<^sup>2\<close> is beyond
  64 bits, the same with the offset negated, and offset \<open>-1\<close> with \<open>p = 2\<close> and
  \<open>proot = 5\<close>, whose residue is 1.
\<close>

theorem check_found_exact_residue_witness:
  "unat (4 :: uint32) \<le> length
       [\<lparr>f_p = 0, f_q = 11, f_k = 9, f_offset = 1, f_proot = 1\<rparr>,
        \<lparr>f_p = 4294967295, f_q = 5, f_k = 0, f_offset = 1099511627776, f_proot = 7\<rparr>,
        \<lparr>f_p = 4294967295, f_q = 6, f_k = 0, f_offset = - 1099511627776, f_proot = 7\<rparr>,
        \<lparr>f_p = 2, f_q = 8, f_k = 0, f_offset = - 1, f_proot = 5\<rparr>]
   \<and> (\<exists>calls. check_found
          \<lparr>num_p = 2, num_p_alloc = 2, soa_p = [3, 13], soa_root = [30, 130]\<rparr>
          [\<lparr>f_p = 0, f_q = 11, f_k = 9, f_offset = 1, f_proot = 1\<rparr>,
           \<lparr>f_p = 4294967295, f_q = 5, f_k = 0, f_offset = 1099511627776, f_proot = 7\<rparr>,
           \<lparr>f_p = 4294967295, f_q = 6, f_k = 0, f_offset = - 1099511627776, f_proot = 7\<rparr>,
           \<lparr>f_p = 2, f_q = 8, f_k = 0, f_offset = - 1, f_proot = 5\<rparr>]
          4 1 = Inr calls
        \<and> map c_p calls = [4294967295, 4294967295, 2] \<and> map c_q calls = [5, 6, 8]
        \<and> map c_special_q calls = [13, 13, 13]
        \<and> map c_special_q_root calls = [130, 130, 130]
        \<and> map (\<lambda>c. sval128 (c_res c)) calls
            = [20282409594206937459307472486407, - 20282409594206937459307472486393, 1]
        \<and> map (\<lambda>c. int (val128 (c_res c))) calls
            = [20282409594206937459307472486407,
               340282346638528869256437148124295725063, 1])"
  using check_found_exact_residue
    [of 4 "[\<lparr>f_p = 0, f_q = 11, f_k = 9, f_offset = 1, f_proot = 1\<rparr>,
            \<lparr>f_p = 4294967295, f_q = 5, f_k = 0, f_offset = 1099511627776, f_proot = 7\<rparr>,
            \<lparr>f_p = 4294967295, f_q = 6, f_k = 0, f_offset = - 1099511627776, f_proot = 7\<rparr>,
            \<lparr>f_p = 2, f_q = 8, f_k = 0, f_offset = - 1, f_proot = 5\<rparr>]"
        1 "\<lparr>num_p = 2, num_p_alloc = 2, soa_p = [3, 13], soa_root = [30, 130]\<rparr>"]
  by (simp add: hits_def)

subsection \<open>Facts about traces and the batching loops\<close>

lemma extends_refl: "extends P tr tr"
  by (simp add: extends_def)

lemma extends_trans:
  assumes "extends P a b" "extends P b c"
  shows "extends P a c"
proof -
  from assms(1) obtain x where x: "b = a @ x" "\<forall>i < length x. P (length a + i) (x ! i)"
    by (auto simp: extends_def)
  from assms(2) obtain y where y: "c = b @ y" "\<forall>i < length y. P (length b + i) (y ! i)"
    by (auto simp: extends_def)
  have "\<forall>i < length (x @ y). P (length a + i) ((x @ y) ! i)"
  proof (intro allI impI)
    fix i assume i: "i < length (x @ y)"
    show "P (length a + i) ((x @ y) ! i)"
    proof (cases "i < length x")
      case True
      with x(2) show ?thesis by (simp add: nth_append)
    next
      case False
      with i have "i - length x < length y" by simp
      with y(2) have "P (length b + (i - length x)) (y ! (i - length x))" by blast
      with False x(1) show ?thesis by (simp add: nth_append)
    qed
  qed
  with x(1) y(1) show ?thesis unfolding extends_def by (intro exI [of _ "x @ y"]) simp
qed

lemma extends_snoc: "P (length tr) e \<Longrightarrow> extends P tr (tr @ [e])"
  by (simp add: extends_def)

lemma extends_append:
  "(\<And>i. i < length xs \<Longrightarrow> P (length tr + i) (xs ! i)) \<Longrightarrow> extends P tr (tr @ xs)"
  by (simp add: extends_def)

lemma sq_loop_extends:
  assumes "sq_loop n E L tpb lc s tr = (fl, tr')"
    and "\<And>k s. s < num_p (sq_array L) \<Longrightarrow>
           P k (Launch (lc\<lparr>l_num_sq_done := s, l_curr_num_sq := chunk_sq E L s\<rparr>))"
    and "\<And>k c. P k (Collision c)"
    and "\<And>k. P k (StopPoll (stop_sieving E k))"
  shows "extends P tr tr'"
  using assms(1)
proof (induction n arbitrary: s tr)
  case 0
  then show ?case by (simp add: extends_refl)
next
  case (Suc n)
  show ?case
  proof (cases "s < num_p (sq_array L)")
    case False
    with Suc.prems show ?thesis by (simp add: extends_refl)
  next
    case True
    let ?tr1 = "tr @ [Launch (lc\<lparr>l_num_sq_done := s, l_curr_num_sq := chunk_sq E L s\<rparr>)]"
    let ?copied = "l_num_blocks lc * tpb"
    have e1: "extends P tr ?tr1" by (rule extends_snoc) (rule assms(2) [OF True])
    show ?thesis
    proof (cases "found_array_size L < ?copied")
      case big: True
      with True Suc.prems have "tr' = ?tr1" by (simp add: Let_def)
      with e1 show ?thesis by simp
    next
      case fits: False
      show ?thesis
      proof (cases "check_found (sq_array L) (copy_back E (length ?tr1) ?copied) ?copied s")
        case (Inl f)
        with True fits Suc.prems have "tr' = ?tr1" by (simp add: Let_def)
        with e1 show ?thesis by simp
      next
        case (Inr calls)
        let ?tr2 = "?tr1 @ map Collision calls"
        have e2: "extends P ?tr1 ?tr2" by (rule extends_append) (simp add: assms(3))
        have e3: "extends P ?tr2 (?tr2 @ [StopPoll (stop_sieving E (length ?tr2))])"
          by (rule extends_snoc) (rule assms(4))
        note e13 = extends_trans [OF extends_trans [OF e1 e2] e3]
        show ?thesis
        proof (cases "stop_sieving E (length ?tr2)")
          case stop: True
          with True fits Inr Suc.prems have "tr' = ?tr2 @ [StopPoll True]"
            by (simp add: Let_def)
          with e13 stop show ?thesis by simp
        next
          case go: False
          with True fits Inr Suc.prems
          have "sq_loop n E L tpb lc (s + chunk_sq E L s) (?tr2 @ [StopPoll False]) = (fl, tr')"
            by (simp add: Let_def)
          from Suc.IH [OF this] e13 go show ?thesis by (auto intro: extends_trans)
        qed
      qed
    qed
  qed
qed

lemma p_loop_extends:
  assumes "p_loop n E L tpb lc pd tr = (fl, tr')"
    and "\<And>k pd s. pd < num_p (p_array L) \<Longrightarrow> s < num_p (sq_array L) \<Longrightarrow>
           P k (Launch (lc\<lparr>l_num_p_done := pd, l_curr_num_p := chunk_p E L pd,
                            l_num_sq_done := s, l_curr_num_sq := chunk_sq E L s\<rparr>))"
    and "\<And>k c. P k (Collision c)"
    and "\<And>k. P k (StopPoll (stop_sieving E k))"
    and "\<And>k. P k (TimePoll (past_deadline E k))"
  shows "extends P tr tr'"
  using assms(1)
proof (induction n arbitrary: pd tr)
  case 0
  then show ?case by (simp add: extends_refl)
next
  case (Suc n)
  show ?case
  proof (cases "pd < num_p (p_array L)")
    case False
    with Suc.prems show ?thesis by (simp add: extends_refl)
  next
    case True
    let ?lc = "lc\<lparr>l_num_p_done := pd, l_curr_num_p := chunk_p E L pd\<rparr>"
    from True Suc.prems obtain fl1 tr1 where
      sq: "sq_loop n E L tpb ?lc 0 tr = (fl1, tr1)"
      by (cases "sq_loop n E L tpb ?lc 0 tr") (auto simp: Let_def)
    have e1: "extends P tr tr1"
      by (rule sq_loop_extends [OF sq]) (simp_all add: assms(2) [OF True] assms(3,4))
    show ?thesis
    proof (cases fl1)
      case Next
      have e2: "extends P tr1 (tr1 @ [TimePoll (past_deadline E (length tr1))])"
        by (rule extends_snoc) (rule assms(5))
      show ?thesis
      proof (cases "past_deadline E (length tr1)")
        case late: True
        with True sq Next Suc.prems have "tr' = tr1 @ [TimePoll True]" by (simp add: Let_def)
        with e1 e2 late show ?thesis by (auto intro: extends_trans)
      next
        case intime: False
        with True sq Next Suc.prems
        have "p_loop n E L tpb lc (pd + chunk_p E L pd) (tr1 @ [TimePoll False]) = (fl, tr')"
          by (simp add: Let_def)
        from Suc.IH [OF this] e1 e2 intime show ?thesis by (auto intro: extends_trans)
      qed
    next
      case (Return r)
      with True sq Suc.prems have "tr' = tr1" by (simp add: Let_def)
      with e1 show ?thesis by simp
    next
      case (Crash f)
      with True sq Suc.prems have "tr' = tr1" by (simp add: Let_def)
      with e1 show ?thesis by simp
    next
      case Timeout
      with True sq Suc.prems have "tr' = tr1" by (simp add: Let_def)
      with e1 show ?thesis by simp
    qed
  qed
qed

lemma q_loop_extends:
  assumes "q_loop n E L tpb gi lc qd tr = (fl, tr')"
    and "\<And>k qd pd s. qd < num_p (q_array L) \<Longrightarrow> tpb \<noteq> 0 \<Longrightarrow> chunk_q E L tpb qd \<noteq> 0 \<Longrightarrow>
           pd < num_p (p_array L) \<Longrightarrow> s < num_p (sq_array L) \<Longrightarrow>
           P k (Launch (lc\<lparr>l_num_q_done := qd, l_curr_num_q := chunk_q E L tpb qd,
                            l_num_blocks := grid_width L tpb gi (chunk_q E L tpb qd),
                            l_num_p_done := pd, l_curr_num_p := chunk_p E L pd,
                            l_num_sq_done := s, l_curr_num_sq := chunk_sq E L s\<rparr>))"
    and "\<And>k c. P k (Collision c)"
    and "\<And>k. P k (StopPoll (stop_sieving E k))"
    and "\<And>k. P k (TimePoll (past_deadline E k))"
  shows "extends P tr tr'"
  using assms(1)
proof (induction n arbitrary: qd tr)
  case 0
  then show ?case by (simp add: extends_refl)
next
  case (Suc n)
  show ?case
  proof (cases "qd < num_p (q_array L) \<and> tpb \<noteq> 0 \<and> chunk_q E L tpb qd \<noteq> 0")
    case False
    with Suc.prems have "tr' = tr" by (auto split: if_splits)
    then show ?thesis by (simp add: extends_refl)
  next
    case True
    let ?lc = "lc\<lparr>l_num_q_done := qd, l_curr_num_q := chunk_q E L tpb qd,
                   l_num_blocks := grid_width L tpb gi (chunk_q E L tpb qd)\<rparr>"
    from True Suc.prems obtain fl1 tr1 where
      pl: "p_loop n E L tpb ?lc 0 tr = (fl1, tr1)"
      by (cases "p_loop n E L tpb ?lc 0 tr") auto
    have e1: "extends P tr tr1"
      by (rule p_loop_extends [OF pl]) (use True in \<open>simp_all add: assms(2,3,4,5)\<close>)
    show ?thesis
    proof (cases fl1)
      case Next
      with True pl Suc.prems
      have "q_loop n E L tpb gi lc (qd + chunk_q E L tpb qd) tr1 = (fl, tr')"
        by simp
      from Suc.IH [OF this] e1 show ?thesis by (auto intro: extends_trans)
    next
      case (Return r)
      with True pl Suc.prems have "tr' = tr1" by simp
      with e1 show ?thesis by simp
    next
      case (Crash f)
      with True pl Suc.prems have "tr' = tr1" by simp
      with e1 show ?thesis by simp
    next
      case Timeout
      with True pl Suc.prems have "tr' = tr1" by simp
      with e1 show ?thesis by simp
    qed
  qed
qed

lemma unat_min: "unat (min a b) = min (unat a) (unat b)" for a b :: "'a::len word"
  by (simp add: min_def word_le_nat_alt)

lemma unat_remaining: "d < n \<Longrightarrow> unat (n - d) = unat n - unat d" for n d :: "'a::len word"
  by (simp add: unat_sub word_less_nat_alt word_le_nat_alt)

lemma unat_round_down:
  fixes m t :: "'a::len word"
  shows "unat (m - m mod t) = unat m div unat t * unat t"
proof -
  have "m mod t \<le> m" by (simp add: word_le_nat_alt unat_mod)
  then have "unat (m - m mod t) = unat m - unat m mod unat t"
    by (simp add: unat_sub unat_mod)
  then show ?thesis by (simp add: minus_mod_eq_div_mult)
qed

lemma chunk_sq_unat:
  "s < num_p (sq_array L) \<Longrightarrow>
   unat (chunk_sq E L s)
     = min (unat (SPECIALQ_BATCH_SIZE E)) (unat (num_p (sq_array L)) - unat s)"
  by (simp add: chunk_sq_def unat_min unat_remaining)

lemma chunk_p_unat:
  "pd < num_p (p_array L) \<Longrightarrow>
   unat (chunk_p E L pd)
     = min (min (unat (found_array_size L) div 3) (unat (num_p (p_array L)) - unat pd))
           (unat (P_SOA_BATCH_SIZE E))"
  by (simp add: chunk_p_def Let_def unat_min unat_remaining unat_div)

lemma chunk_q_unat:
  "qd < num_p (q_array L) \<Longrightarrow>
   unat (chunk_q E L tpb qd)
     = min (min (3 * unat (found_array_size L) mod 2 ^ 32)
                (unat (num_p (q_array L)) - unat qd))
           (unat (Q_SOA_BATCH_SIZE E)) div unat tpb * unat tpb"
  by (simp add: chunk_q_def Let_def unat_round_down unat_min unat_remaining unat_word_ariths)

lemma extends_launches:
  assumes "extends (\<lambda>k e. case e of Launch l \<Rightarrow> Q l | _ \<Rightarrow> True) tr tr'"
    and "l \<in> new_launches tr tr'"
  shows "Q l"
proof -
  from assms(1) obtain new where n: "tr' = tr @ new"
    "\<forall>i < length new. (case new ! i of Launch l \<Rightarrow> Q l | _ \<Rightarrow> True)"
    by (auto simp: extends_def)
  from assms(2) n(1) have "Launch l \<in> set new" by (simp add: new_launches_def)
  then obtain i where "i < length new" "new ! i = Launch l" by (auto simp: in_set_conv_nth)
  with n(2) show ?thesis by force
qed

lemma batch_extends:
  assumes "sieve_lattice_batch n E L lattice_size tpb gpu_info gpu_kernel tr = (res, tr')"
    and "\<And>k l. launch_ok E L lattice_size tpb gpu_info gpu_kernel l \<Longrightarrow> P k (Launch l)"
    and "\<And>k c. P k (Collision c)"
    and "\<And>k. P k (StopPoll (stop_sieving E k))"
    and "\<And>k. P k (TimePoll (past_deadline E k))"
  shows "extends P tr tr'"
proof -
  let ?lc = "\<lparr>l_kernel = gpu_kernel,
              l_params = kernel_params (sizeof_ptr E) (sizeof_ptr E),
              l_lattice_size = ucast lattice_size,
              l_num_q_done = 0, l_curr_num_q = 0, l_num_blocks = 0,
              l_num_p_done = 0, l_curr_num_p = 0, l_num_sq_done = 0, l_curr_num_sq = 0\<rparr>"
  from assms(1) obtain fl where q: "q_loop n E L tpb gpu_info ?lc 0 tr = (fl, tr')"
    unfolding sieve_lattice_batch_def
    by (cases "q_loop n E L tpb gpu_info ?lc 0 tr") (auto split: flow.splits)
  show ?thesis
    by (rule q_loop_extends [OF q]) (simp_all add: assms(2,3,4,5) launch_ok_def)
qed

lemma batch_launches:
  assumes "sieve_lattice_batch n E L lattice_size tpb gpu_info gpu_kernel tr = (res, tr')"
    and "l \<in> new_launches tr tr'"
  shows "launch_ok E L lattice_size tpb gpu_info gpu_kernel l"
  by (rule extends_launches [OF batch_extends [OF assms(1)] assms(2)]) simp_all

subsection \<open>Aborts in the batching loops\<close>

lemma quiet_Nil [simp]: "quiet []"
  by (simp add: quiet_def)

lemma quiet_append [simp]: "quiet (a @ b) \<longleftrightarrow> quiet a \<and> quiet b"
  by (auto simp: quiet_def)

lemma quiet_Cons [simp]: "quiet (e # es) \<longleftrightarrow> \<not> is_abort e \<and> quiet es"
  by (simp add: quiet_def)

lemma quiet_map_Collision [simp]: "quiet (map Collision cs)"
  by (auto simp: quiet_def is_abort_def)

lemma aborted_prepend: "quiet a \<Longrightarrow> aborted b \<Longrightarrow> aborted (a @ b)"
  unfolding aborted_def by (metis append.assoc quiet_append)

lemma aborted_single: "is_abort e \<Longrightarrow> quiet pre \<Longrightarrow> aborted (pre @ [e])"
  unfolding aborted_def by blast

lemma flow_trace_prepend: "quiet a \<Longrightarrow> flow_trace fl b \<Longrightarrow> flow_trace fl (a @ b)"
  by (cases fl) (simp_all add: flow_trace_def aborted_prepend)

lemma sq_loop_abort:
  "sq_loop n E L tpb lc s tr = (fl, tr') \<Longrightarrow> \<exists>new. tr' = tr @ new \<and> flow_trace fl new"
proof (induction n arbitrary: s tr)
  case 0
  then show ?case by (simp add: flow_trace_def)
next
  case (Suc n)
  show ?case
  proof (cases "s < num_p (sq_array L)")
    case False
    with Suc.prems show ?thesis by (simp add: flow_trace_def)
  next
    case True
    let ?e = "Launch (lc\<lparr>l_num_sq_done := s, l_curr_num_sq := chunk_sq E L s\<rparr>)"
    let ?tr1 = "tr @ [?e]"
    let ?copied = "l_num_blocks lc * tpb"
    have ql: "quiet [?e]" by (simp add: is_abort_def)
    show ?thesis
    proof (cases "found_array_size L < ?copied")
      case big: True
      with True Suc.prems have "tr' = tr @ [?e]" "fl = Crash OutOfBounds" by (simp_all add: Let_def)
      with ql show ?thesis by (simp add: flow_trace_def)
    next
      case fits: False
      show ?thesis
      proof (cases "check_found (sq_array L) (copy_back E (length ?tr1) ?copied) ?copied s")
        case (Inl f)
        with True fits Suc.prems have "tr' = tr @ [?e]" "fl = Crash f" by (simp_all add: Let_def)
        with ql show ?thesis by (simp add: flow_trace_def)
      next
        case (Inr calls)
        let ?mid = "?e # map Collision calls"
        let ?tr2 = "?tr1 @ map Collision calls"
        have qm: "quiet ?mid" by (simp add: is_abort_def)
        show ?thesis
        proof (cases "stop_sieving E (length ?tr2)")
          case stop: True
          with True fits Inr Suc.prems
          have "tr' = tr @ (?mid @ [StopPoll True])" "fl = Return 1" by (simp_all add: Let_def)
          moreover have "aborted (?mid @ [StopPoll True])"
            by (rule aborted_single [OF _ qm]) (simp add: is_abort_def)
          ultimately show ?thesis by (auto simp: flow_trace_def)
        next
          case go: False
          with True fits Inr Suc.prems
          have "sq_loop n E L tpb lc (s + chunk_sq E L s) (?tr2 @ [StopPoll False]) = (fl, tr')"
            by (simp add: Let_def)
          from Suc.IH [OF this] obtain new where
            n: "tr' = (?tr2 @ [StopPoll False]) @ new" "flow_trace fl new" by blast
          have "quiet (?mid @ [StopPoll False])" using qm by (simp add: is_abort_def)
          from flow_trace_prepend [OF this n(2)] n(1) show ?thesis by auto
        qed
      qed
    qed
  qed
qed

lemma p_loop_abort:
  "p_loop n E L tpb lc pd tr = (fl, tr') \<Longrightarrow> \<exists>new. tr' = tr @ new \<and> flow_trace fl new"
proof (induction n arbitrary: pd tr)
  case 0
  then show ?case by (simp add: flow_trace_def)
next
  case (Suc n)
  show ?case
  proof (cases "pd < num_p (p_array L)")
    case False
    with Suc.prems show ?thesis by (simp add: flow_trace_def)
  next
    case True
    let ?lc = "lc\<lparr>l_num_p_done := pd, l_curr_num_p := chunk_p E L pd\<rparr>"
    from True Suc.prems obtain fl1 tr1 where
      sq: "sq_loop n E L tpb ?lc 0 tr = (fl1, tr1)"
      by (cases "sq_loop n E L tpb ?lc 0 tr") (auto simp: Let_def)
    from sq_loop_abort [OF sq] obtain a where a: "tr1 = tr @ a" "flow_trace fl1 a" by blast
    show ?thesis
    proof (cases fl1)
      case Next
      with a have qa: "quiet a" by (simp add: flow_trace_def)
      show ?thesis
      proof (cases "past_deadline E (length tr1)")
        case late: True
        with True sq Next Suc.prems have "tr' = tr @ (a @ [TimePoll True])" "fl = Return 1"
          by (simp_all add: Let_def a(1))
        moreover have "aborted (a @ [TimePoll True])"
          by (rule aborted_single [OF _ qa]) (simp add: is_abort_def)
        ultimately show ?thesis by (auto simp: flow_trace_def)
      next
        case intime: False
        with True sq Next Suc.prems
        have "p_loop n E L tpb lc (pd + chunk_p E L pd) (tr1 @ [TimePoll False]) = (fl, tr')"
          by (simp add: Let_def)
        from Suc.IH [OF this] obtain new where
          n: "tr' = (tr1 @ [TimePoll False]) @ new" "flow_trace fl new" by blast
        have "quiet (a @ [TimePoll False])" using qa by (simp add: is_abort_def)
        from flow_trace_prepend [OF this n(2)] n(1) a(1) show ?thesis by auto
      qed
    next
      case (Return r)
      with True sq Suc.prems have "tr' = tr1" "fl = fl1" by (simp_all add: Let_def)
      with a show ?thesis by auto
    next
      case (Crash f)
      with True sq Suc.prems have "tr' = tr1" "fl = fl1" by (simp_all add: Let_def)
      with a show ?thesis by auto
    next
      case Timeout
      with True sq Suc.prems have "tr' = tr1" "fl = fl1" by (simp_all add: Let_def)
      with a show ?thesis by auto
    qed
  qed
qed

lemma q_loop_abort:
  "q_loop n E L tpb gi lc qd tr = (fl, tr') \<Longrightarrow> \<exists>new. tr' = tr @ new \<and> flow_trace fl new"
proof (induction n arbitrary: qd tr)
  case 0
  then show ?case by (simp add: flow_trace_def)
next
  case (Suc n)
  show ?case
  proof (cases "qd < num_p (q_array L) \<and> tpb \<noteq> 0 \<and> chunk_q E L tpb qd \<noteq> 0")
    case False
    with Suc.prems have "tr' = tr" "fl = Next \<or> fl = Crash DivideByZero"
      by (auto split: if_splits)
    then show ?thesis by (auto simp: flow_trace_def)
  next
    case True
    let ?lc = "lc\<lparr>l_num_q_done := qd, l_curr_num_q := chunk_q E L tpb qd,
                   l_num_blocks := grid_width L tpb gi (chunk_q E L tpb qd)\<rparr>"
    from True Suc.prems obtain fl1 tr1 where
      pl: "p_loop n E L tpb ?lc 0 tr = (fl1, tr1)"
      by (cases "p_loop n E L tpb ?lc 0 tr") auto
    from p_loop_abort [OF pl] obtain a where a: "tr1 = tr @ a" "flow_trace fl1 a" by blast
    show ?thesis
    proof (cases fl1)
      case Next
      with a have qa: "quiet a" by (simp add: flow_trace_def)
      from Next True pl Suc.prems
      have "q_loop n E L tpb gi lc (qd + chunk_q E L tpb qd) tr1 = (fl, tr')"
        by simp
      from Suc.IH [OF this] obtain new where n: "tr' = tr1 @ new" "flow_trace fl new" by blast
      from flow_trace_prepend [OF qa n(2)] n(1) a(1) show ?thesis by auto
    next
      case (Return r)
      with True pl Suc.prems have "tr' = tr1" "fl = fl1" by simp_all
      with a show ?thesis by auto
    next
      case (Crash f)
      with True pl Suc.prems have "tr' = tr1" "fl = fl1" by simp_all
      with a show ?thesis by auto
    next
      case Timeout
      with True pl Suc.prems have "tr' = tr1" "fl = fl1" by simp_all
      with a show ?thesis by auto
    qed
  qed
qed

lemma batch_abort:
  assumes "sieve_lattice_batch n E L ls tpb gi gk tr = (res, tr')"
  shows "\<exists>new. tr' = tr @ new \<and> result_trace res new"
proof -
  let ?lc = "\<lparr>l_kernel = gk,
              l_params = kernel_params (sizeof_ptr E) (sizeof_ptr E),
              l_lattice_size = ucast ls,
              l_num_q_done = 0, l_curr_num_q = 0, l_num_blocks = 0,
              l_num_p_done = 0, l_curr_num_p = 0, l_num_sq_done = 0, l_curr_num_sq = 0\<rparr>"
  obtain fl t where q: "q_loop n E L tpb gi ?lc 0 tr = (fl, t)"
    by (cases "q_loop n E L tpb gi ?lc 0 tr") auto
  with assms have r: "tr' = t"
    "res = (case fl of Next \<Rightarrow> Returns 0 | Return r \<Rightarrow> Returns r | Crash f \<Rightarrow> Faults f
            | Timeout \<Rightarrow> OutOfFuel)"
    unfolding sieve_lattice_batch_def by (auto split: flow.splits)
  from q_loop_abort [OF q] obtain new where "t = tr @ new" "flow_trace fl new" by blast
  with r show ?thesis by (cases fl) (auto simp: flow_trace_def result_trace_def)
qed

subsection \<open>Aborts and events in the driver\<close>

lemma refill_sq_keeps [simp]:
  "s_trace (refill_sq V st) = s_trace st" "s_quit (refill_sq V st) = s_quit st"
  by (simp_all add: refill_sq_def split: prod.splits)

lemma refill_p_keeps [simp]:
  "s_trace (refill_p V st) = s_trace st" "s_quit (refill_p V st) = s_quit st"
  by (simp_all add: refill_p_def split: prod.splits)

lemma refill_q_keeps [simp]:
  "s_trace (refill_q V st) = s_trace st" "s_quit (refill_q V st) = s_quit st"
  by (simp_all add: refill_q_def split: prod.splits)

lemma batch_no_fuel [simp]:
  "sieve_lattice_batch 0 E L ls tpb gi gk tr = (OutOfFuel, tr)"
  by (simp add: sieve_lattice_batch_def)

lemma loop_trace_prepend: "quiet a \<Longrightarrow> loop_trace out q b \<Longrightarrow> loop_trace out q (a @ b)"
  by (cases out) (auto simp: loop_trace_def aborted_prepend)

lemma special_q_loop_abort:
  assumes "special_q_loop n E V st = (out, st')" "s_quit st = 0"
  shows "\<exists>new. s_trace st' = s_trace st @ new \<and> loop_trace out (s_quit st') new"
  using assms
proof (induction n arbitrary: st)
  case 0
  then show ?case by (auto simp: loop_trace_def)
next
  case (Suc n)
  let ?st1 = "refill_sq V st"
  show ?case
  proof (cases "num_p (sq_array (s_L ?st1)) = 0")
    case True
    with Suc.prems show ?thesis by (auto simp: loop_trace_def)
  next
    case False
    obtain res t where b: "sieve_lattice_batch n E (s_L ?st1) (v_lattice_size V)
        (v_threads_per_block V) (v_gpu_info V) (v_gpu_kernel V) (s_trace ?st1) = (res, t)"
      by fastforce
    from batch_abort [OF b] obtain a where a: "t = s_trace st @ a" "result_trace res a"
      by auto
    show ?thesis
    proof (cases res)
      case (Returns r)
      with False b Suc.prems
      have rec: "special_q_loop n E V (?st1\<lparr>s_quit := r, s_trace := t\<rparr>) = (out, st')"
        by simp
      show ?thesis
      proof (cases "r = 0")
        case True
        with a Returns have qa: "quiet a" by (auto simp: result_trace_def aborted_def is_abort_def)
        from Suc.IH [OF rec] True obtain new where
          "s_trace st' = t @ new" "loop_trace out (s_quit st') new" by auto
        with a(1) loop_trace_prepend [OF qa] show ?thesis by auto
      next
        case False
        with a Returns have r1: "r = 1" "aborted a" by (auto simp: result_trace_def)
        from b Returns have "n \<noteq> 0" by (cases n) auto
        then obtain m where "n = Suc m" by (cases n) auto
        with rec False have "out = Returns ()" "st' = ?st1\<lparr>s_quit := r, s_trace := t\<rparr>"
          by auto
        with a(1) r1 show ?thesis by (auto simp: loop_trace_def)
      qed
    next
      case (Faults f)
      with False b Suc.prems a show ?thesis by (auto simp: loop_trace_def result_trace_def)
    next
      case OutOfFuel
      with False b Suc.prems a show ?thesis by (auto simp: loop_trace_def result_trace_def)
    qed
  qed
qed

lemma special_q_loop_fuel:
  "special_q_loop n E V st = (Returns u, st') \<Longrightarrow> n \<noteq> 0"
  by (cases n) auto

lemma small_p_loop_abort:
  assumes "small_p_loop n E V st = (out, st')" "s_quit st = 0"
  shows "\<exists>new. s_trace st' = s_trace st @ new \<and> loop_trace out (s_quit st') new"
  using assms
proof (induction n arbitrary: st)
  case 0
  then show ?case by (auto simp: loop_trace_def)
next
  case (Suc n)
  let ?st1 = "(refill_p V st)\<lparr>s_special_q :=
                    v_sieve_special_q V (v_special_q_min V) (v_special_q_max V)\<rparr>"
  show ?case
  proof (cases "num_p (p_array (s_L (refill_p V st))) = 0")
    case True
    with Suc.prems show ?thesis by (auto simp: loop_trace_def)
  next
    case False
    obtain o1 st1 where b: "special_q_loop n E V ?st1 = (o1, st1)" by fastforce
    from special_q_loop_abort [OF b] Suc.prems(2)
    obtain a where a: "s_trace st1 = s_trace st @ a" "loop_trace o1 (s_quit st1) a" by auto
    show ?thesis
    proof (cases o1)
      case (Returns u)
      with False b Suc.prems
      have rec: "small_p_loop n E V st1 = (out, st')" by simp
      show ?thesis
      proof (cases "s_quit st1 = 0")
        case True
        with a Returns have qa: "quiet a" by (auto simp: loop_trace_def aborted_def is_abort_def)
        from Suc.IH [OF rec True] obtain new where
          "s_trace st' = s_trace st1 @ new" "loop_trace out (s_quit st') new" by auto
        with a(1) loop_trace_prepend [OF qa] show ?thesis by auto
      next
        case False
        from special_q_loop_fuel b Returns obtain m where "n = Suc m" by (cases n) auto
        with rec False have "out = Returns ()" "st' = st1" by auto
        with a Returns show ?thesis by (auto simp: loop_trace_def)
      qed
    next
      case (Faults f)
      with False b Suc.prems a show ?thesis by (auto simp: loop_trace_def)
    next
      case OutOfFuel
      with False b Suc.prems a show ?thesis by (auto simp: loop_trace_def)
    qed
  qed
qed

lemma small_p_loop_fuel:
  "small_p_loop n E V st = (Returns u, st') \<Longrightarrow> n \<noteq> 0"
  by (cases n) auto

lemma large_p_loop_abort:
  assumes "large_p_loop n E V st = (out, st')" "s_quit st = 0"
  shows "\<exists>new. s_trace st' = s_trace st @ new \<and> loop_trace out (s_quit st') new"
  using assms
proof (induction n arbitrary: st)
  case 0
  then show ?case by (auto simp: loop_trace_def)
next
  case (Suc n)
  let ?st1 = "(refill_q V st)\<lparr>s_small_p :=
                    v_sieve_small_p V (v_small_p_min V) (v_small_p_max V)\<rparr>"
  show ?case
  proof (cases "num_p (q_array (s_L (refill_q V st))) < v_threads_per_block V")
    case True
    with Suc.prems show ?thesis by (auto simp: loop_trace_def)
  next
    case False
    obtain o1 st1 where b: "small_p_loop n E V ?st1 = (o1, st1)" by fastforce
    from small_p_loop_abort [OF b] Suc.prems(2)
    obtain a where a: "s_trace st1 = s_trace st @ a" "loop_trace o1 (s_quit st1) a" by auto
    show ?thesis
    proof (cases o1)
      case (Returns u)
      with False b Suc.prems
      have rec: "large_p_loop n E V st1 = (out, st')" by simp
      show ?thesis
      proof (cases "s_quit st1 = 0")
        case True
        with a Returns have qa: "quiet a" by (auto simp: loop_trace_def aborted_def is_abort_def)
        from Suc.IH [OF rec True] obtain new where
          "s_trace st' = s_trace st1 @ new" "loop_trace out (s_quit st') new" by auto
        with a(1) loop_trace_prepend [OF qa] show ?thesis by auto
      next
        case False
        from small_p_loop_fuel b Returns obtain m where "n = Suc m" by (cases n) auto
        with rec False have "out = Returns ()" "st' = st1" by auto
        with a Returns show ?thesis by (auto simp: loop_trace_def)
      qed
    next
      case (Faults f)
      with False b Suc.prems a show ?thesis by (auto simp: loop_trace_def)
    next
      case OutOfFuel
      with False b Suc.prems a show ?thesis by (auto simp: loop_trace_def)
    qed
  qed
qed

lemma special_q_loop_extends:
  assumes "special_q_loop n E V st = (out, st')"
    and "\<And>k l. P k (Launch l)" "\<And>k c. P k (Collision c)"
    and "\<And>k. P k (StopPoll (stop_sieving E k))"
    and "\<And>k. P k (TimePoll (past_deadline E k))"
  shows "extends P (s_trace st) (s_trace st')"
  using assms(1)
proof (induction n arbitrary: st)
  case 0
  then show ?case by (auto simp: extends_refl)
next
  case (Suc n)
  let ?st1 = "refill_sq V st"
  show ?case
  proof (cases "s_quit st \<noteq> 0 \<or> num_p (sq_array (s_L ?st1)) = 0")
    case True
    with Suc.prems show ?thesis by (auto simp: extends_refl split: if_splits)
  next
    case False
    obtain res t where b: "sieve_lattice_batch n E (s_L ?st1) (v_lattice_size V)
        (v_threads_per_block V) (v_gpu_info V) (v_gpu_kernel V) (s_trace ?st1) = (res, t)"
      by fastforce
    have e1: "extends P (s_trace st) t"
      using batch_extends [OF b, of P] assms(2-5) by simp
    show ?thesis
    proof (cases res)
      case (Returns r)
      with False b Suc.prems
      have "special_q_loop n E V (?st1\<lparr>s_quit := r, s_trace := t\<rparr>) = (out, st')"
        by simp
      from Suc.IH [OF this] e1 show ?thesis by (auto intro: extends_trans)
    next
      case (Faults f)
      with False b Suc.prems e1 show ?thesis by auto
    next
      case OutOfFuel
      with False b Suc.prems e1 show ?thesis by auto
    qed
  qed
qed

lemma small_p_loop_extends:
  assumes "small_p_loop n E V st = (out, st')"
    and "\<And>k l. P k (Launch l)" "\<And>k c. P k (Collision c)"
    and "\<And>k. P k (StopPoll (stop_sieving E k))"
    and "\<And>k. P k (TimePoll (past_deadline E k))"
  shows "extends P (s_trace st) (s_trace st')"
  using assms(1)
proof (induction n arbitrary: st)
  case 0
  then show ?case by (auto simp: extends_refl)
next
  case (Suc n)
  let ?st1 = "(refill_p V st)\<lparr>s_special_q :=
                    v_sieve_special_q V (v_special_q_min V) (v_special_q_max V)\<rparr>"
  show ?case
  proof (cases "s_quit st \<noteq> 0 \<or> num_p (p_array (s_L (refill_p V st))) = 0")
    case True
    with Suc.prems show ?thesis by (auto simp: extends_refl split: if_splits)
  next
    case False
    obtain o1 st1 where b: "special_q_loop n E V ?st1 = (o1, st1)" by fastforce
    have e1: "extends P (s_trace st) (s_trace st1)"
      using special_q_loop_extends [OF b, of P] assms(2-5) by simp
    show ?thesis
    proof (cases o1)
      case (Returns u)
      with False b Suc.prems have "small_p_loop n E V st1 = (out, st')" by simp
      from Suc.IH [OF this] e1 show ?thesis by (auto intro: extends_trans)
    next
      case (Faults f)
      with False b Suc.prems e1 show ?thesis by auto
    next
      case OutOfFuel
      with False b Suc.prems e1 show ?thesis by auto
    qed
  qed
qed

lemma large_p_loop_extends:
  assumes "large_p_loop n E V st = (out, st')"
    and "\<And>k l. P k (Launch l)" "\<And>k c. P k (Collision c)"
    and "\<And>k. P k (StopPoll (stop_sieving E k))"
    and "\<And>k. P k (TimePoll (past_deadline E k))"
  shows "extends P (s_trace st) (s_trace st')"
  using assms(1)
proof (induction n arbitrary: st)
  case 0
  then show ?case by (auto simp: extends_refl)
next
  case (Suc n)
  let ?st1 = "(refill_q V st)\<lparr>s_small_p :=
                    v_sieve_small_p V (v_small_p_min V) (v_small_p_max V)\<rparr>"
  show ?case
  proof (cases "s_quit st \<noteq> 0
      \<or> num_p (q_array (s_L (refill_q V st))) < v_threads_per_block V")
    case True
    with Suc.prems show ?thesis by (auto simp: extends_refl split: if_splits)
  next
    case False
    obtain o1 st1 where b: "small_p_loop n E V ?st1 = (o1, st1)" by fastforce
    have e1: "extends P (s_trace st) (s_trace st1)"
      using small_p_loop_extends [OF b, of P] assms(2-5) by simp
    show ?thesis
    proof (cases o1)
      case (Returns u)
      with False b Suc.prems have "large_p_loop n E V st1 = (out, st')" by simp
      from Suc.IH [OF this] e1 show ?thesis by (auto intro: extends_trans)
    next
      case (Faults f)
      with False b Suc.prems e1 show ?thesis by auto
    next
      case OutOfFuel
      with False b Suc.prems e1 show ?thesis by auto
    qed
  qed
qed

text \<open>The state and the locals with which \<open>sieve_specialq_64\<close> enters its loops.\<close>

lemma driver_unfold:
  "\<exists>V st. s_trace st = tr @ setup_events \<and> s_quit st = 0
     \<and> v_threads_per_block V
         = max_threads_per_block E (if lpmax < 2 ^ 24 then sieve_kernel_48 else sieve_kernel_64)
     \<and> s_large_p st = lp lpmin lpmax
     \<and> soa_wf (q_array (s_L st))
     \<and> sieve_specialq_64 n E gi sq sqmin sqmax sp spmin spmax lp lpmin lpmax tr
         = (case large_p_loop n E V st of
              (Returns u, st') \<Rightarrow> (Returns (s_quit st'), s_trace st' @ cleanup_events)
            | (Faults f, st') \<Rightarrow> (Faults f, s_trace st')
            | (OutOfFuel, st') \<Rightarrow> (OutOfFuel, s_trace st'))"
  unfolding sieve_specialq_64_def Let_def
  by (intro exI conjI) (simp_all add: soa_wf_def p_soa_var_init_def)

lemma driver_abort:
  assumes "sieve_specialq_64 n E gi sq sqmin sqmax sp spmin spmax lp lpmin lpmax tr = (res, tr')"
  shows "\<exists>new. (case res of
            Returns q \<Rightarrow> tr' = tr @ setup_events @ new @ cleanup_events
                          \<and> ((q = 0 \<and> quiet new) \<or> (q = 1 \<and> aborted new))
          | _ \<Rightarrow> tr' = tr @ setup_events @ new \<and> quiet new)"
proof -
  from driver_unfold [where n=n and E=E and gi=gi and sq=sq and sqmin=sqmin and sqmax=sqmax
      and sp=sp and spmin=spmin and spmax=spmax and lp=lp and lpmin=lpmin and lpmax=lpmax and tr=tr]
  obtain V st where st: "s_trace st = tr @ setup_events" "s_quit st = 0"
    and eq: "sieve_specialq_64 n E gi sq sqmin sqmax sp spmin spmax lp lpmin lpmax tr
         = (case large_p_loop n E V st of
              (Returns u, st') \<Rightarrow> (Returns (s_quit st'), s_trace st' @ cleanup_events)
            | (Faults f, st') \<Rightarrow> (Faults f, s_trace st')
            | (OutOfFuel, st') \<Rightarrow> (OutOfFuel, s_trace st'))"
    by blast
  obtain out st' where l: "large_p_loop n E V st = (out, st')" by fastforce
  from large_p_loop_abort [OF l st(2)] st(1)
  obtain new where n: "s_trace st' = tr @ setup_events @ new" "loop_trace out (s_quit st') new"
    by auto
  from assms eq l n show ?thesis
    by (cases out) (auto simp: loop_trace_def intro: exI [of _ new])
qed

lemma driver_extends:
  assumes "sieve_specialq_64 n E gi sq sqmin sqmax sp spmin spmax lp lpmin lpmax tr = (res, tr')"
    and "\<And>k l. P k (Launch l)" "\<And>k c. P k (Collision c)"
    and "\<And>k. P k (StopPoll (stop_sieving E k))"
    and "\<And>k. P k (TimePoll (past_deadline E k))"
    and "\<And>k. P k HostAlloc" "\<And>k. P k DeviceAlloc" "\<And>k. P k HostFree" "\<And>k. P k DeviceFree"
  shows "extends P tr tr'"
proof -
  from driver_unfold [where n=n and E=E and gi=gi and sq=sq and sqmin=sqmin and sqmax=sqmax
      and sp=sp and spmin=spmin and spmax=spmax and lp=lp and lpmin=lpmin and lpmax=lpmax and tr=tr]
  obtain V st where st: "s_trace st = tr @ setup_events" "s_quit st = 0"
    and eq: "sieve_specialq_64 n E gi sq sqmin sqmax sp spmin spmax lp lpmin lpmax tr
         = (case large_p_loop n E V st of
              (Returns u, st') \<Rightarrow> (Returns (s_quit st'), s_trace st' @ cleanup_events)
            | (Faults f, st') \<Rightarrow> (Faults f, s_trace st')
            | (OutOfFuel, st') \<Rightarrow> (OutOfFuel, s_trace st'))"
    by blast
  obtain out st' where l: "large_p_loop n E V st = (out, st')" by fastforce
  have e0: "extends P tr (tr @ setup_events)"
    by (rule extends_append) (auto simp: setup_events_def nth_append assms(6,7) nth_Cons')
  have e1: "extends P (tr @ setup_events) (s_trace st')"
    using large_p_loop_extends [OF l, of P] assms(2-5) st(1) by simp
  have e2: "extends P (s_trace st') (s_trace st' @ cleanup_events)"
    by (rule extends_append) (auto simp: cleanup_events_def nth_append assms(8,9))
  from assms(1) eq l have "tr' = s_trace st' \<or> tr' = s_trace st' @ cleanup_events"
    by (cases out) auto
  with e0 e1 e2 show ?thesis by (auto intro: extends_trans)
qed

lemma fill_batch_count:
  "soa_wf soa \<Longrightarrow>
   unat (num_p (fst (fill_batch bs items soa))) \<le> unat (num_p soa) + candidates items"
proof (induction items arbitrary: soa)
  case Nil
  then show ?case by (simp add: candidates_def)
next
  case (Cons it items)
  obtain pv roots where it: "it = (pv, roots)" by (cases it)
  let ?s = "store_p_soa pv (of_nat (length roots)) roots soa"
  have le: "unat (of_nat (length roots) :: uint32) \<le> length roots"
    by (simp add: unat_of_nat)
  note sp = store_p_soa_spec [OF Cons.prems le, of pv]
  have n: "unat (num_p ?s) \<le> unat (num_p soa) + length roots"
    using sp(1) le by simp
  show ?case
  proof (cases "num_p ?s = bs")
    case True
    with n show ?thesis by (simp add: it Let_def candidates_def)
  next
    case False
    from Cons.IH [OF sp(4)] n False show ?thesis
      by (simp add: it Let_def candidates_def)
  qed
qed

lemma driver_few_candidates:
  assumes "candidates (lp lpmin lpmax)
             < unat (max_threads_per_block E
                       (if lpmax < 2 ^ 24 then sieve_kernel_48 else sieve_kernel_64))"
  shows "sieve_specialq_64 (Suc n) E gi sq sqmin sqmax sp spmin spmax lp lpmin lpmax tr
           = (Returns 0, tr @ setup_events @ cleanup_events)"
proof -
  from driver_unfold [where n="Suc n" and E=E and gi=gi and sq=sq and sqmin=sqmin and sqmax=sqmax
      and sp=sp and spmin=spmin and spmax=spmax and lp=lp and lpmin=lpmin and lpmax=lpmax and tr=tr]
  obtain V st where st: "s_trace st = tr @ setup_events" "s_quit st = 0"
    "v_threads_per_block V
       = max_threads_per_block E (if lpmax < 2 ^ 24 then sieve_kernel_48 else sieve_kernel_64)"
    "s_large_p st = lp lpmin lpmax" "soa_wf (q_array (s_L st))"
    and eq: "sieve_specialq_64 (Suc n) E gi sq sqmin sqmax sp spmin spmax lp lpmin lpmax tr
         = (case large_p_loop (Suc n) E V st of
              (Returns u, st') \<Rightarrow> (Returns (s_quit st'), s_trace st' @ cleanup_events)
            | (Faults f, st') \<Rightarrow> (Faults f, s_trace st')
            | (OutOfFuel, st') \<Rightarrow> (OutOfFuel, s_trace st'))"
    by blast
  let ?q = "fst (fill_batch (v_host_q_batch_size V) (s_large_p st)
                   (p_soa_var_reset (q_array (s_L st))))"
  have "unat (num_p ?q) \<le> candidates (lp lpmin lpmax)"
    using fill_batch_count [OF reset_wf [OF st(5)], of "v_host_q_batch_size V" "s_large_p st"]
    by (simp add: st(4) p_soa_var_reset_def)
  with assms st(3) have "num_p ?q < v_threads_per_block V"
    by (simp add: word_less_nat_alt)
  moreover have "q_array (s_L (refill_q V st)) = ?q"
    by (simp add: refill_q_def split: prod.splits)
  ultimately have "large_p_loop (Suc n) E V st = (Returns (), refill_q V st)"
    using st(2) by simp
  with eq st(1,2) show ?thesis by simp
qed

lemma no_launch_setup_cleanup:
  "new_launches tr (tr @ setup_events @ cleanup_events) = {}"
  by (auto simp: new_launches_def setup_events_def cleanup_events_def)

subsection \<open>Chunk sizes, grid width and parameter layout\<close>

lemma ex_run:
  "sieve_lattice_batch 4 ex_env ex_L 7 2 \<lparr>num_compute_units = 2\<rparr> sieve_kernel_48 []
     = (Returns 0, [Launch ex_launch, StopPoll False, TimePoll False])"
  by code_simp

lemma ex_new_launch:
  "ex_launch \<in> new_launches [] [Launch ex_launch, StopPoll False, TimePoll False]"
  by (simp add: new_launches_def)


text \<open>
  C8. Every launch of a call of \<^verbatim>\<open>sieve_lattice_batch\<close> has the grid width
  \<^verbatim>\<open>num_compute_units\<close>, except when the chunk of large values \<^verbatim>\<open>curr_num_q\<close> is
  smaller than \<^verbatim>\<open>found_array_size\<close>: then the grid width is that chunk divided by
  \<^verbatim>\<open>threads_per_block\<close>.
\<close>

theorem batch_grid_width:
  assumes "sieve_lattice_batch n E L lattice_size tpb gpu_info gpu_kernel tr = (res, tr')"
    and "l \<in> new_launches tr tr'"
  shows "l_num_blocks l
           = (if l_curr_num_q l < found_array_size L then l_curr_num_q l div tpb
              else num_compute_units gpu_info)"
  using batch_launches [OF assms] by (simp add: launch_ok_def grid_width_def)

theorem batch_grid_width_witness:
  "sieve_lattice_batch 4 ex_env ex_L 7 2 \<lparr>num_compute_units = 2\<rparr> sieve_kernel_48 []
     = (Returns 0, [Launch ex_launch, StopPoll False, TimePoll False])
   \<and> ex_launch \<in> new_launches [] [Launch ex_launch, StopPoll False, TimePoll False]
   \<and> l_curr_num_q ex_launch < found_array_size ex_L
   \<and> l_num_blocks ex_launch = l_curr_num_q ex_launch div 2"
  using batch_grid_width [OF ex_run ex_new_launch] ex_run ex_new_launch
  by (simp add: ex_launch_def ex_L_def)

lemma q_loop_zero_chunk:
  "tpb \<noteq> 0 \<Longrightarrow> qd < num_p (q_array L) \<Longrightarrow> chunk_q E L tpb qd = 0 \<Longrightarrow>
   q_loop (Suc k) E L tpb gpu_info lc qd t = (Next, t)"
  by simp

lemma batch_zero_chunk:
  "tpb \<noteq> 0 \<Longrightarrow> chunk_q E L tpb 0 = 0 \<Longrightarrow>
   sieve_lattice_batch (Suc k) E L lattice_size tpb gpu_info gpu_kernel t = (Returns 0, t)"
  by (simp add: sieve_lattice_batch_def)


text \<open>
  C3. For every launch of a call of \<^verbatim>\<open>sieve_lattice_batch\<close>: the chunk of large
  values is the minimum of \<^verbatim>\<open>3 * found_array_size\<close> (the 32-bit product), of what is
  left of the large values and of \<^verbatim>\<open>Q_SOA_BATCH_SIZE\<close>, rounded down to a multiple of
  \<^verbatim>\<open>threads_per_block\<close>, and it is not 0; the chunk of small values is the minimum
  of \<^verbatim>\<open>found_array_size / 3\<close>, of what is left and of \<^verbatim>\<open>P_SOA_BATCH_SIZE\<close>; the
  chunk of special-q values is the minimum of \<^verbatim>\<open>SPECIALQ_BATCH_SIZE\<close> and of what is
  left; neither of the two is rounded. When the rounded chunk of large values is 0
  the outer loop ends with no further event, and the function, had it just started,
  returns 0.
\<close>

theorem batch_chunk_sizes:
  "(sieve_lattice_batch n E L lattice_size tpb gpu_info gpu_kernel tr = (res, tr')
      \<and> l \<in> new_launches tr tr' \<longrightarrow>
      tpb \<noteq> 0
    \<and> l_num_q_done l < num_p (q_array L)
    \<and> l_num_p_done l < num_p (p_array L)
    \<and> l_num_sq_done l < num_p (sq_array L)
    \<and> l_curr_num_q l \<noteq> 0
    \<and> unat (l_curr_num_q l)
        = min (min (3 * unat (found_array_size L) mod 2 ^ 32)
                   (unat (num_p (q_array L)) - unat (l_num_q_done l)))
              (unat (Q_SOA_BATCH_SIZE E)) div unat tpb * unat tpb
    \<and> unat (l_curr_num_p l)
        = min (min (unat (found_array_size L) div 3)
                   (unat (num_p (p_array L)) - unat (l_num_p_done l)))
              (unat (P_SOA_BATCH_SIZE E))
    \<and> unat (l_curr_num_sq l)
        = min (unat (SPECIALQ_BATCH_SIZE E))
              (unat (num_p (sq_array L)) - unat (l_num_sq_done l)))
   \<and> (tpb \<noteq> 0 \<and> qd < num_p (q_array L)
        \<and> min (min (3 * unat (found_array_size L) mod 2 ^ 32)
                    (unat (num_p (q_array L)) - unat qd))
               (unat (Q_SOA_BATCH_SIZE E)) div unat tpb * unat tpb = 0 \<longrightarrow>
        q_loop (Suc k) E L tpb gpu_info lc qd t = (Next, t)
      \<and> (qd = 0 \<longrightarrow>
           sieve_lattice_batch (Suc k) E L lattice_size tpb gpu_info gpu_kernel t
             = (Returns 0, t)))"
proof (intro conjI impI)
  assume a: "sieve_lattice_batch n E L lattice_size tpb gpu_info gpu_kernel tr = (res, tr')
      \<and> l \<in> new_launches tr tr'"
  then have ok: "launch_ok E L lattice_size tpb gpu_info gpu_kernel l"
    by (auto intro: batch_launches)
  then show "tpb \<noteq> 0" "l_num_q_done l < num_p (q_array L)"
    "l_num_p_done l < num_p (p_array L)" "l_num_sq_done l < num_p (sq_array L)"
    "l_curr_num_q l \<noteq> 0"
    unfolding launch_ok_def by blast+
  from ok show "unat (l_curr_num_q l)
        = min (min (3 * unat (found_array_size L) mod 2 ^ 32)
                   (unat (num_p (q_array L)) - unat (l_num_q_done l)))
              (unat (Q_SOA_BATCH_SIZE E)) div unat tpb * unat tpb"
    by (simp add: launch_ok_def chunk_q_unat)
  from ok show "unat (l_curr_num_p l)
        = min (min (unat (found_array_size L) div 3)
                   (unat (num_p (p_array L)) - unat (l_num_p_done l)))
              (unat (P_SOA_BATCH_SIZE E))"
    by (simp add: launch_ok_def chunk_p_unat)
  from ok show "unat (l_curr_num_sq l)
        = min (unat (SPECIALQ_BATCH_SIZE E))
              (unat (num_p (sq_array L)) - unat (l_num_sq_done l))"
    by (simp add: launch_ok_def chunk_sq_unat)
next
  assume b: "tpb \<noteq> 0 \<and> qd < num_p (q_array L)
        \<and> min (min (3 * unat (found_array_size L) mod 2 ^ 32)
                    (unat (num_p (q_array L)) - unat qd))
               (unat (Q_SOA_BATCH_SIZE E)) div unat tpb * unat tpb = 0"
  then have "unat (chunk_q E L tpb qd) = 0" by (simp add: chunk_q_unat)
  then have z: "chunk_q E L tpb qd = 0" by (simp add: unat_eq_0)
  with b show "q_loop (Suc k) E L tpb gpu_info lc qd t = (Next, t)"
    by (simp add: q_loop_zero_chunk)
  assume "qd = 0"
  with b z show "sieve_lattice_batch (Suc k) E L lattice_size tpb gpu_info gpu_kernel t
             = (Returns 0, t)"
    by (simp add: batch_zero_chunk)
qed

theorem batch_chunk_sizes_witness:
  "sieve_lattice_batch 4 ex_env ex_L 7 2 \<lparr>num_compute_units = 2\<rparr> sieve_kernel_48 []
     = (Returns 0, [Launch ex_launch, StopPoll False, TimePoll False])
   \<and> ex_launch \<in> new_launches [] [Launch ex_launch, StopPoll False, TimePoll False]
   \<and> unat (l_curr_num_q ex_launch) = 2
   \<and> unat (l_curr_num_p ex_launch) = 1
   \<and> unat (l_curr_num_sq ex_launch) = 1
   \<and> (2 :: uint32) \<noteq> 0 \<and> (2 :: uint32) < num_p (q_array ex_L)
   \<and> q_loop (Suc 0) ex_env ex_L 2 \<lparr>num_compute_units = 2\<rparr> ex_launch 2 [] = (Next, [])"
proof -
  note t = batch_chunk_sizes [of 4 ex_env ex_L 7 2 "\<lparr>num_compute_units = 2\<rparr>" sieve_kernel_48
      "[]" "Returns 0" "[Launch ex_launch, StopPoll False, TimePoll False]" ex_launch 2 0
      ex_launch "[]"]
  from t ex_run ex_new_launch
  have "unat (l_curr_num_q ex_launch) = 2" "unat (l_curr_num_p ex_launch) = 1"
    "unat (l_curr_num_sq ex_launch) = 1"
    by (simp_all add: ex_L_def ex_env_def ex_launch_def)
  moreover have h: "(2 :: uint32) \<noteq> 0 \<and> (2 :: uint32) < num_p (q_array ex_L)
        \<and> min (min (3 * unat (found_array_size ex_L) mod 2 ^ 32)
                    (unat (num_p (q_array ex_L)) - unat (2 :: uint32)))
               (unat (Q_SOA_BATCH_SIZE ex_env)) div unat (2 :: uint32) * unat (2 :: uint32) = 0"
    by (simp add: ex_L_def ex_env_def)
  moreover from t h
  have "q_loop (Suc 0) ex_env ex_L 2 \<lparr>num_compute_units = 2\<rparr> ex_launch 2 [] = (Next, [])"
    by blast
  ultimately show ?thesis using ex_run ex_new_launch by blast
qed

lemma kernel_params_8:
  "kernel_params 8 8 =
     \<lparr>gpu_p_array_offset = 0, num_p_offset = 8, gpu_q_array_offset = 16,
      num_q_offset = 24, gpu_sq_array_offset = 32, num_sq_offset = 40,
      lattice_size_offset = 48, gpu_found_array_offset = 56, param_size = 64\<rparr>"
  by (simp add: kernel_params_def CUDA_ALIGN_PARAM_def Let_def)

lemma kernel_params_4:
  "kernel_params 4 4 =
     \<lparr>gpu_p_array_offset = 0, num_p_offset = 4, gpu_q_array_offset = 8,
      num_q_offset = 12, gpu_sq_array_offset = 16, num_sq_offset = 20,
      lattice_size_offset = 24, gpu_found_array_offset = 32, param_size = 36\<rparr>"
  by (simp add: kernel_params_def CUDA_ALIGN_PARAM_def Let_def)


text \<open>
  C2, as stated, fails: the three counts do not follow the three buffer references.
  With pointers of 8 bytes the first count is at offset 8, before the second buffer
  reference at 16 and the third at 32; with pointers of 4 bytes likewise.
\<close>

theorem kernel_params_three_buffers_first_counterexample:
  "num_p_offset (kernel_params 8 8) = 8
   \<and> gpu_q_array_offset (kernel_params 8 8) = 16
   \<and> gpu_sq_array_offset (kernel_params 8 8) = 32
   \<and> \<not> gpu_sq_array_offset (kernel_params 8 8) < num_p_offset (kernel_params 8 8)
   \<and> \<not> gpu_sq_array_offset (kernel_params 4 4) < num_p_offset (kernel_params 4 4)"
  by (simp add: kernel_params_8 kernel_params_4)


text \<open>
  C2, amended. With pointers of 4 or of 8 bytes, every launch of a call of
  \<^verbatim>\<open>sieve_lattice_batch\<close> has the same parameter layout, in this order: the small
  buffer and its count, the large buffer and its count, the special-q buffer and its
  count, the 64-bit lattice size, the output buffer. No two parameters overlap, the
  size of the list is the end of the last one, and every offset is a multiple of the
  parameter's alignment: the pointer's size for the four references, 4 for the three
  counts, 8 for the lattice size.
\<close>

theorem kernel_params_layout:
  assumes "sizeof_ptr E = 4 \<or> sizeof_ptr E = 8"
    and "sieve_lattice_batch n E L lattice_size tpb gpu_info gpu_kernel tr = (res, tr')"
    and "l \<in> new_launches tr tr'"
  shows "l_params l = kernel_params (sizeof_ptr E) (sizeof_ptr E)
    \<and> unat (gpu_p_array_offset (l_params l)) = 0
    \<and> unat (gpu_p_array_offset (l_params l)) + unat (sizeof_ptr E)
         \<le> unat (num_p_offset (l_params l))
    \<and> unat (num_p_offset (l_params l)) + 4 \<le> unat (gpu_q_array_offset (l_params l))
    \<and> unat (gpu_q_array_offset (l_params l)) + unat (sizeof_ptr E)
         \<le> unat (num_q_offset (l_params l))
    \<and> unat (num_q_offset (l_params l)) + 4 \<le> unat (gpu_sq_array_offset (l_params l))
    \<and> unat (gpu_sq_array_offset (l_params l)) + unat (sizeof_ptr E)
         \<le> unat (num_sq_offset (l_params l))
    \<and> unat (num_sq_offset (l_params l)) + 4 \<le> unat (lattice_size_offset (l_params l))
    \<and> unat (lattice_size_offset (l_params l)) + 8
         \<le> unat (gpu_found_array_offset (l_params l))
    \<and> unat (gpu_found_array_offset (l_params l)) + unat (sizeof_ptr E)
         = unat (param_size (l_params l))
    \<and> unat (sizeof_ptr E) dvd unat (gpu_p_array_offset (l_params l))
    \<and> unat (sizeof_ptr E) dvd unat (gpu_q_array_offset (l_params l))
    \<and> unat (sizeof_ptr E) dvd unat (gpu_sq_array_offset (l_params l))
    \<and> unat (sizeof_ptr E) dvd unat (gpu_found_array_offset (l_params l))
    \<and> 4 dvd unat (num_p_offset (l_params l))
    \<and> 4 dvd unat (num_q_offset (l_params l))
    \<and> 4 dvd unat (num_sq_offset (l_params l))
    \<and> 8 dvd unat (lattice_size_offset (l_params l))"
proof -
  from batch_launches [OF assms(2,3)]
  have p: "l_params l = kernel_params (sizeof_ptr E) (sizeof_ptr E)"
    by (simp add: launch_ok_def)
  from assms(1) show ?thesis
  proof
    assume "sizeof_ptr E = 4"
    then show ?thesis unfolding p by (simp add: kernel_params_4)
  next
    assume "sizeof_ptr E = 8"
    then show ?thesis unfolding p by (simp add: kernel_params_8)
  qed
qed

theorem kernel_params_layout_witness:
  "sizeof_ptr ex_env = 8
   \<and> sieve_lattice_batch 4 ex_env ex_L 7 2 \<lparr>num_compute_units = 2\<rparr> sieve_kernel_48 []
     = (Returns 0, [Launch ex_launch, StopPoll False, TimePoll False])
   \<and> ex_launch \<in> new_launches [] [Launch ex_launch, StopPoll False, TimePoll False]
   \<and> l_params ex_launch = kernel_params 8 8
   \<and> unat (num_p_offset (l_params ex_launch)) + 4
        \<le> unat (gpu_q_array_offset (l_params ex_launch))
   \<and> 8 dvd unat (lattice_size_offset (l_params ex_launch))"
proof -
  have s: "sizeof_ptr ex_env = 4 \<or> sizeof_ptr ex_env = 8" by (simp add: ex_env_def)
  have "sizeof_ptr ex_env = 8" by (simp add: ex_env_def)
  with kernel_params_layout [OF s ex_run ex_new_launch] ex_run ex_new_launch
  show ?thesis by (simp add: kernel_params_8)
qed


subsection \<open>Runs without a launch\<close>

lemma chunk_q_short:
  assumes "unat (num_p (q_array L)) < unat tpb"
  shows "chunk_q E L tpb 0 = 0"
proof -
  let ?c = "min (min (3 * found_array_size L) (num_p (q_array L))) (Q_SOA_BATCH_SIZE E)"
  have "unat ?c \<le> unat (num_p (q_array L))" by (simp add: unat_min)
  with assms have "unat ?c < unat tpb" by linarith
  then have "unat (?c - ?c mod tpb) = 0" by (simp add: unat_round_down)
  then show ?thesis by (simp add: chunk_q_def Let_def unat_eq_0)
qed

lemma batch_short:
  assumes "unat (num_p (q_array L)) < unat tpb"
  shows "snd (sieve_lattice_batch n E L lattice_size tpb gpu_info gpu_kernel tr) = tr"
proof (cases n)
  case 0
  then show ?thesis by (simp add: sieve_lattice_batch_def)
next
  case (Suc m)
  from assms have "tpb \<noteq> 0" by auto
  with Suc chunk_q_short [OF assms, of E] show ?thesis
    by (simp add: sieve_lattice_batch_def)
qed

lemma new_launches_same [simp]: "new_launches tr tr = {}"
  by (simp add: new_launches_def)

text \<open>
  C9. When the large sieve hands over fewer (value, root) pairs than the kernel has
  threads in a block, \<^verbatim>\<open>sieve_specialq_64\<close> leaves its outer loop at the first
  \<^verbatim>\<open>q_array->num_p < threads_per_block\<close> test: it returns 0 and its trace holds no
  launch. The same holds one level down: \<^verbatim>\<open>sieve_lattice_batch\<close> called with fewer
  than \<^verbatim>\<open>threads_per_block\<close> large values rounds its first chunk down to 0 and adds
  nothing to the trace.
\<close>

theorem no_launch_below_block_size:
  "(candidates (sieve_large_p large_p_min large_p_max)
      < unat (max_threads_per_block E
                (if large_p_max < 2 ^ 24 then sieve_kernel_48 else sieve_kernel_64)) \<longrightarrow>
    (\<exists>tr'. sieve_specialq_64 (Suc n) E gpu_info sieve_special_q special_q_min special_q_max
             sieve_small_p small_p_min small_p_max sieve_large_p large_p_min large_p_max tr
           = (Returns 0, tr')
         \<and> new_launches tr tr' = {}))
   \<and> (unat (num_p (q_array L)) < unat tpb \<longrightarrow>
        new_launches tr
          (snd (sieve_lattice_batch m E L lattice_size tpb gpu_info gpu_kernel tr)) = {})"
  by (auto simp: driver_few_candidates no_launch_setup_cleanup batch_short)

theorem no_launch_below_block_size_witness:
  "candidates (ex_sieve 5 9) < unat (max_threads_per_block ex_env sieve_kernel_48)
   \<and> (9 :: uint32) < 2 ^ 24
   \<and> (\<exists>tr'. sieve_specialq_64 (Suc 0) ex_env \<lparr>num_compute_units = 2\<rparr> ex_sieve 2 3
             ex_sieve 2 4 ex_sieve 5 9 [] = (Returns 0, tr')
         \<and> new_launches [] tr' = {})
   \<and> unat (num_p (p_array ex_L)) < unat (2 :: uint32)
   \<and> new_launches []
        (snd (sieve_lattice_batch 3 ex_env (ex_L\<lparr>q_array := p_array ex_L\<rparr>) 7 2
                \<lparr>num_compute_units = 2\<rparr> sieve_kernel_48 [])) = {}"
proof -
  have c: "candidates (ex_sieve 5 9) < unat (max_threads_per_block ex_env
             (if (9 :: uint32) < 2 ^ 24 then sieve_kernel_48 else sieve_kernel_64))"
    by (simp add: candidates_def ex_sieve_def ex_env_def)
  have s: "unat (num_p (q_array (ex_L\<lparr>q_array := p_array ex_L\<rparr>))) < unat (2 :: uint32)"
    by (simp add: ex_L_def)
  note t = no_launch_below_block_size [of ex_sieve 5 9 ex_env 0 "\<lparr>num_compute_units = 2\<rparr>"
      ex_sieve 2 3 ex_sieve 2 4 "[]" "ex_L\<lparr>q_array := p_array ex_L\<rparr>" 2 3 7 sieve_kernel_48]
  from t c s show ?thesis
    by (simp add: candidates_def ex_sieve_def ex_env_def ex_L_def)
qed

subsection \<open>Stop flag and deadline\<close>

lemma fill_batch_one:
  "fill_batch bs [(pv, roots)] soa = (store_p_soa pv (of_nat (length roots)) roots soa, [])"
  by (simp add: Let_def)

lemma init_wf: "soa_wf (p_soa_var_init cap)"
  by (simp add: soa_wf_def p_soa_var_init_def)

lemma num_p_first_item:
  assumes "length roots \<le> unat cap"
  shows "num_p (store_p_soa pv (of_nat (length roots)) roots
                  (p_soa_var_reset (p_soa_var_init cap))) = of_nat (length roots)"
proof -
  have "unat cap < 2 ^ 32" using unsigned_less [of cap, where 'a = nat] by simp
  with assms have l: "length roots < 2 ^ 32" by linarith
  then have u: "unat (of_nat (length roots) :: uint32) = length roots"
    by (simp add: unsigned_of_nat take_bit_nat_eq_self)
  have "unat (num_p (store_p_soa pv (of_nat (length roots)) roots
                  (p_soa_var_reset (p_soa_var_init cap)))) = length roots"
    using store_p_soa_spec(1) [OF reset_wf [OF init_wf [of cap]],
        where num_roots = "of_nat (length roots)" and roots = roots and pv = pv]
      assms u
    by (simp add: p_soa_var_reset_def p_soa_var_init_def)
  then show ?thesis by (metis u word_unat_eq_iff)
qed

lemma check_found_no_hit:
  assumes "\<And>k i. f_p (found_output E k i) = 0"
  shows "check_found sq (copy_back E k c) c off = Inr []"
proof -
  have h: "hits (drop 0 (take (unat c) (copy_back E k c))) = []"
    by (simp add: hits_def copy_back_def assms filter_empty_conv)
  show ?thesis
    unfolding check_found_def
    using check_loop_spec [of c "copy_back E k c" 0 off sq "[]"] h
    by (simp add: copy_back_def)
qed

lemma ex_stop_no_hit: "check_found sq (copy_back ex_stop_env k c) c off = Inr []"
  by (rule check_found_no_hit) (simp add: ex_stop_env_def ex_env_def)

lemma ex_stop_consts:
  "max_threads_per_block ex_stop_env g = 2" "SPECIALQ_BATCH_SIZE ex_stop_env = 2"
  "P_SOA_BATCH_SIZE ex_stop_env = 2" "Q_SOA_BATCH_SIZE ex_stop_env = 4"
  "lattice_size_of ex_stop_env a b = 7" "stop_sieving ex_stop_env k = True"
  "sizeof_ptr ex_stop_env = 8"
  by (simp_all add: ex_stop_env_def ex_env_def)

lemma ex_stop_batch:
  assumes "num_p (q_array L) = 2" "num_p (p_array L) = 1" "num_p (sq_array L) = 1"
    "found_array_size L = 4"
  shows "sieve_lattice_batch (Suc (Suc (Suc n))) ex_stop_env L 7 2 \<lparr>num_compute_units = 2\<rparr>
           sieve_kernel_48 tr = (Returns 1, tr @ [Launch ex_launch, StopPoll True])"
  by (simp add: sieve_lattice_batch_def assms ex_stop_consts chunk_q_def chunk_p_def
      chunk_sq_def grid_width_def ex_stop_no_hit kernel_params_8 ex_launch_def Let_def)


lemma num_p_refilled:
  assumes "length roots \<le> unat cap"
  shows "num_p (fst (fill_batch bs [(pv, roots)] (p_soa_var_reset (p_soa_var_init cap))))
           = of_nat (length roots)"
  using num_p_first_item [OF assms] by (simp add: fill_batch_one del: fill_batch.simps)

lemma refill_sq_L:
  "sq_array (s_L (refill_sq V st))
     = fst (fill_batch (v_host_sq_batch_size V) (s_special_q st)
              (p_soa_var_reset (sq_array (s_L st))))"
  "q_array (s_L (refill_sq V st)) = q_array (s_L st)"
  "p_array (s_L (refill_sq V st)) = p_array (s_L st)"
  "found_array_size (s_L (refill_sq V st)) = found_array_size (s_L st)"
  by (simp_all add: refill_sq_def case_prod_beta del: fill_batch.simps)

lemma refill_p_L:
  "p_array (s_L (refill_p V st))
     = fst (fill_batch (v_host_p_batch_size V) (s_small_p st)
              (p_soa_var_reset (p_array (s_L st))))"
  "q_array (s_L (refill_p V st)) = q_array (s_L st)"
  "sq_array (s_L (refill_p V st)) = sq_array (s_L st)"
  "found_array_size (s_L (refill_p V st)) = found_array_size (s_L st)"
  by (simp_all add: refill_p_def case_prod_beta del: fill_batch.simps)

lemma refill_q_L:
  "q_array (s_L (refill_q V st))
     = fst (fill_batch (v_host_q_batch_size V) (s_large_p st)
              (p_soa_var_reset (q_array (s_L st))))"
  "p_array (s_L (refill_q V st)) = p_array (s_L st)"
  "sq_array (s_L (refill_q V st)) = sq_array (s_L st)"
  "found_array_size (s_L (refill_q V st)) = found_array_size (s_L st)"
  by (simp_all add: refill_q_def case_prod_beta del: fill_batch.simps)

lemma ex_special_q:
  assumes V: "v_threads_per_block V = 2" "v_lattice_size V = 7"
      "v_gpu_info V = \<lparr>num_compute_units = 2\<rparr>" "v_gpu_kernel V = sieve_kernel_48"
    and st: "s_quit st = 0" "s_special_q st = [(pv, [r])]"
      "sq_array (s_L st) = p_soa_var_init cap" "1 \<le> unat cap"
      "num_p (q_array (s_L st)) = 2" "num_p (p_array (s_L st)) = 1"
      "found_array_size (s_L st) = 4"
  shows "\<exists>st'. special_q_loop (Suc (Suc (Suc (Suc (Suc n))))) ex_stop_env V st = (Returns (), st')
           \<and> s_quit st' = 1 \<and> s_trace st' = s_trace st @ [Launch ex_launch, StopPoll True]"
proof -
  let ?st1 = "refill_sq V st"
  have a: "num_p (sq_array (s_L ?st1)) = 1"
    using num_p_refilled [of "[r]" cap "v_host_sq_batch_size V" pv] st(4)
    by (simp add: refill_sq_L st(2,3) del: fill_batch.simps)
  have b: "num_p (q_array (s_L ?st1)) = 2" "num_p (p_array (s_L ?st1)) = 1"
    "found_array_size (s_L ?st1) = 4"
    by (simp_all add: refill_sq_L st)
  note r = ex_stop_batch [OF b(1,2) a b(3), of "Suc n" "s_trace st"]
  show ?thesis
    by (simp add: st(1) a V r)
qed

lemma ex_small_p:
  assumes V: "v_threads_per_block V = 2" "v_lattice_size V = 7"
      "v_gpu_info V = \<lparr>num_compute_units = 2\<rparr>" "v_gpu_kernel V = sieve_kernel_48"
      "v_sieve_special_q V (v_special_q_min V) (v_special_q_max V) = [(sv, [sr])]"
    and st: "s_quit st = 0" "s_small_p st = [(pv, [r])]"
      "p_array (s_L st) = p_soa_var_init cap" "1 \<le> unat cap"
      "sq_array (s_L st) = p_soa_var_init scap" "1 \<le> unat scap"
      "num_p (q_array (s_L st)) = 2" "found_array_size (s_L st) = 4"
  shows "\<exists>st'. small_p_loop (Suc (Suc (Suc (Suc (Suc (Suc n)))))) ex_stop_env V st
             = (Returns (), st')
           \<and> s_quit st' = 1 \<and> s_trace st' = s_trace st @ [Launch ex_launch, StopPoll True]"
proof -
  let ?st1 = "(refill_p V st)\<lparr>s_special_q :=
                 v_sieve_special_q V (v_special_q_min V) (v_special_q_max V)\<rparr>"
  have a: "num_p (p_array (s_L (refill_p V st))) = 1"
    using num_p_refilled [of "[r]" cap "v_host_p_batch_size V" pv] st(4)
    by (simp add: refill_p_L st(2,3) del: fill_batch.simps)
  have p: "s_quit ?st1 = 0" "s_special_q ?st1 = [(sv, [sr])]"
    "sq_array (s_L ?st1) = p_soa_var_init scap"
    "num_p (q_array (s_L ?st1)) = 2" "num_p (p_array (s_L ?st1)) = 1"
    "found_array_size (s_L ?st1) = 4"
    using a by (simp_all add: refill_p_L(2,3,4) st(1,5,7,8) V(5))
  have t: "s_trace ?st1 = s_trace st" by simp
  from ex_special_q [OF V(1-4) p(1,2,3) st(6) p(4,5,6), of n]
  obtain st' where s: "special_q_loop (Suc (Suc (Suc (Suc (Suc n))))) ex_stop_env V ?st1
                 = (Returns (), st')" "s_quit st' = 1"
      "s_trace st' = s_trace ?st1 @ [Launch ex_launch, StopPoll True]"
    by blast
  have "small_p_loop (Suc (Suc (Suc (Suc (Suc (Suc n)))))) ex_stop_env V st
          = small_p_loop (Suc (Suc (Suc (Suc (Suc n))))) ex_stop_env V st'"
    by (subst small_p_loop.simps)
       (simp add: st(1) a s(1) del: small_p_loop.simps special_q_loop.simps)
  also have "\<dots> = (Returns (), st')"
    by (subst small_p_loop.simps) (simp add: s(2))
  finally show ?thesis using s(2,3) t by simp
qed

lemma ex_large_p:
  assumes V: "v_threads_per_block V = 2" "v_lattice_size V = 7"
      "v_gpu_info V = \<lparr>num_compute_units = 2\<rparr>" "v_gpu_kernel V = sieve_kernel_48"
      "v_sieve_special_q V (v_special_q_min V) (v_special_q_max V) = [(sv, [sr])]"
      "v_sieve_small_p V (v_small_p_min V) (v_small_p_max V) = [(pv, [r])]"
    and st: "s_quit st = 0" "s_large_p st = [(qv, [ra, rb])]"
      "q_array (s_L st) = p_soa_var_init qcap" "2 \<le> unat qcap"
      "p_array (s_L st) = p_soa_var_init cap" "1 \<le> unat cap"
      "sq_array (s_L st) = p_soa_var_init scap" "1 \<le> unat scap"
      "found_array_size (s_L st) = 4"
  shows "\<exists>st'. large_p_loop (Suc (Suc (Suc (Suc (Suc (Suc (Suc n))))))) ex_stop_env V st
             = (Returns (), st')
           \<and> s_quit st' = 1 \<and> s_trace st' = s_trace st @ [Launch ex_launch, StopPoll True]"
proof -
  let ?st1 = "(refill_q V st)\<lparr>s_small_p :=
                 v_sieve_small_p V (v_small_p_min V) (v_small_p_max V)\<rparr>"
  have a: "num_p (q_array (s_L (refill_q V st))) = 2"
    using num_p_refilled [of "[ra, rb]" qcap "v_host_q_batch_size V" qv] st(4)
    by (simp add: refill_q_L st(2,3) del: fill_batch.simps)
  have p: "s_quit ?st1 = 0" "s_small_p ?st1 = [(pv, [r])]"
    "p_array (s_L ?st1) = p_soa_var_init cap" "sq_array (s_L ?st1) = p_soa_var_init scap"
    "num_p (q_array (s_L ?st1)) = 2" "found_array_size (s_L ?st1) = 4"
    using a by (simp_all add: refill_q_L(2,3,4) st(1,5,7,9) V(6))
  have t: "s_trace ?st1 = s_trace st" by simp
  from ex_small_p [OF V(1-5) p(1,2,3) st(6) p(4) st(8) p(5,6), of n]
  obtain st' where s: "small_p_loop (Suc (Suc (Suc (Suc (Suc (Suc n)))))) ex_stop_env V ?st1
                 = (Returns (), st')" "s_quit st' = 1"
      "s_trace st' = s_trace ?st1 @ [Launch ex_launch, StopPoll True]"
    by blast
  have "large_p_loop (Suc (Suc (Suc (Suc (Suc (Suc (Suc n))))))) ex_stop_env V st
          = large_p_loop (Suc (Suc (Suc (Suc (Suc (Suc n)))))) ex_stop_env V st'"
    by (subst large_p_loop.simps)
       (simp add: st(1) a s(1) V(1) del: large_p_loop.simps small_p_loop.simps)
  also have "\<dots> = (Returns (), st')"
    by (subst large_p_loop.simps) (simp add: s(2))
  finally show ?thesis using s(2,3) t by simp
qed

lemma ex_driver_stop:
  "sieve_specialq_64 (Suc (Suc (Suc (Suc (Suc (Suc (Suc n))))))) ex_stop_env
     \<lparr>num_compute_units = 2\<rparr> ex_sieve 2 3 ex_sieve 2 4 ex_sieve2 5 9 tr
   = (Returns 1, tr @ setup_events @ [Launch ex_launch, StopPoll True] @ cleanup_events)"
proof -
  let ?V = "\<lparr>v_threads_per_block = 2, v_host_p_batch_size = 10000,
             v_host_q_batch_size = 50000, v_host_sq_batch_size = 24,
             v_lattice_size = 7, v_gpu_info = \<lparr>num_compute_units = 2\<rparr>,
             v_gpu_kernel = sieve_kernel_48, v_sieve_special_q = ex_sieve,
             v_special_q_min = 2, v_special_q_max = 3, v_sieve_small_p = ex_sieve,
             v_small_p_min = 2, v_small_p_max = 4\<rparr>"
  let ?st = "\<lparr>s_L = \<lparr>p_array = p_soa_var_init 10000, q_array = p_soa_var_init 50000,
                      sq_array = p_soa_var_init 24, found_array_size = 4\<rparr>,
              s_large_p = ex_sieve2 5 9, s_small_p = [], s_special_q = [], s_quit = 0,
              s_trace = tr @ setup_events\<rparr>"
  let ?n = "Suc (Suc (Suc (Suc (Suc (Suc (Suc n))))))"
  have "\<exists>st'. large_p_loop ?n ex_stop_env ?V ?st = (Returns (), st')
           \<and> s_quit st' = 1 \<and> s_trace st' = s_trace ?st @ [Launch ex_launch, StopPoll True]"
    by (rule ex_large_p [where sv = 2 and sr = 1 and pv = 2 and r = 1 and qv = 5
          and ra = 1 and rb = 2 and qcap = 50000 and cap = 10000 and scap = 24])
       (simp_all add: ex_sieve_def ex_sieve2_def)
  then obtain st' where s:
    "large_p_loop ?n ex_stop_env ?V ?st = (Returns (), st')" "s_quit st' = 1"
    "s_trace st' = s_trace ?st @ [Launch ex_launch, StopPoll True]"
    by blast
  have "sieve_specialq_64 ?n ex_stop_env
          \<lparr>num_compute_units = 2\<rparr> ex_sieve 2 3 ex_sieve 2 4 ex_sieve2 5 9 tr
      = (case large_p_loop ?n ex_stop_env ?V ?st of
           (Returns u, st') \<Rightarrow> (Returns (s_quit st'), s_trace st' @ cleanup_events)
         | (Faults f, st') \<Rightarrow> (Faults f, s_trace st')
         | (OutOfFuel, st') \<Rightarrow> (OutOfFuel, s_trace st'))"
    unfolding sieve_specialq_64_def Let_def
    by (simp add: ex_stop_consts del: large_p_loop.simps)
  also have "\<dots> = (Returns 1, (s_trace ?st @ [Launch ex_launch, StopPoll True]) @ cleanup_events)"
    by (simp only: s prod.case outcome.case)
  finally show ?thesis by (simp del: large_p_loop.simps)
qed

lemma ex_deadline_run:
  "sieve_lattice_batch 4 ex_deadline_env ex_L 7 2 \<lparr>num_compute_units = 2\<rparr> sieve_kernel_48 []
     = (Returns 1, [Launch ex_launch, StopPoll False, TimePoll True])"
  by code_simp

lemma poll_run_append:
  "poll_run L ph (a @ b)
     = (case poll_run L ph a of None \<Rightarrow> None | Some ph' \<Rightarrow> poll_run L ph' b)"
  by (induction a arbitrary: ph) (auto split: option.splits)

lemma poll_run_collisions [simp]:
  "poll_run L (Reduce l) (map Collision cs) = Some (Reduce l)"
  by (induction cs) simp_all

lemma poll_time:
  "swept L ph \<Longrightarrow> poll_step L ph (TimePoll b) = Some (if b then Ended else Idle)"
  by (auto simp: swept_def)

lemma sq_loop_polls:
  assumes "sq_loop n E L tpb lc s tr = (fl, tr')"
    and "ph = Idle \<or> (\<exists>l. ph = Sweep l \<and> l_num_sq_done l + l_curr_num_sq l = s)"
  shows "\<exists>new ph'. tr' = tr @ new \<and> poll_run L ph new = Some ph'
           \<and> (case fl of Next \<Rightarrow> swept L ph' | Return r \<Rightarrow> r = 1 \<and> ph' = Ended | _ \<Rightarrow> True)"
  using assms
proof (induction n arbitrary: s tr ph)
  case 0
  then show ?case by simp
next
  case (Suc n)
  show ?case
  proof (cases "s < num_p (sq_array L)")
    case False
    with Suc.prems(1) have r: "tr' = tr" "fl = Next" by simp_all
    from False Suc.prems(2) have "swept L ph" by (auto simp: swept_def sweep_done_def)
    with r show ?thesis by (intro exI [of _ "[]"] exI [of _ ph]) simp
  next
    case True
    let ?l = "lc\<lparr>l_num_sq_done := s, l_curr_num_sq := chunk_sq E L s\<rparr>"
    let ?e = "Launch ?l"
    let ?tr1 = "tr @ [?e]"
    let ?copied = "l_num_blocks lc * tpb"
    have st: "poll_step L ph ?e = Some (Reduce ?l)"
      using True Suc.prems(2) by (auto simp: sweep_done_def)
    then have p1: "poll_run L ph [?e] = Some (Reduce ?l)" by simp
    show ?thesis
    proof (cases "found_array_size L < ?copied")
      case big: True
      with True Suc.prems(1) have "tr' = tr @ [?e]" "fl = Crash OutOfBounds"
        by (simp_all add: Let_def)
      with p1 show ?thesis by (intro exI [of _ "[?e]"] exI [of _ "Reduce ?l"]) simp
    next
      case fits: False
      show ?thesis
      proof (cases "check_found (sq_array L) (copy_back E (length ?tr1) ?copied) ?copied s")
        case (Inl f)
        with True fits Suc.prems(1) have "tr' = tr @ [?e]" "fl = Crash f"
          by (simp_all add: Let_def)
        with p1 show ?thesis by (intro exI [of _ "[?e]"] exI [of _ "Reduce ?l"]) simp
      next
        case (Inr calls)
        let ?mid = "?e # map Collision calls"
        let ?tr2 = "?tr1 @ map Collision calls"
        have pm: "poll_run L ph ?mid = Some (Reduce ?l)" using st by simp
        show ?thesis
        proof (cases "stop_sieving E (length ?tr2)")
          case stop: True
          with True fits Inr Suc.prems(1)
          have r: "tr' = tr @ (?mid @ [StopPoll True])" "fl = Return 1"
            by (simp_all add: Let_def)
          have "poll_run L ph (?mid @ [StopPoll True]) = Some Ended"
            by (simp only: poll_run_append pm) simp
          with r show ?thesis
            by (intro exI [of _ "?mid @ [StopPoll True]"] exI [of _ Ended]) simp
        next
          case go: False
          with True fits Inr Suc.prems(1)
          have "sq_loop n E L tpb lc (s + chunk_sq E L s) (?tr2 @ [StopPoll False]) = (fl, tr')"
            by (simp add: Let_def)
          from Suc.IH [OF this, of "Sweep ?l"] obtain new ph' where
            n: "tr' = (?tr2 @ [StopPoll False]) @ new" "poll_run L (Sweep ?l) new = Some ph'"
              "case fl of Next \<Rightarrow> swept L ph' | Return r \<Rightarrow> r = 1 \<and> ph' = Ended | _ \<Rightarrow> True"
            by auto
          have "poll_run L ph (?mid @ [StopPoll False]) = Some (Sweep ?l)"
            by (simp only: poll_run_append pm) simp
          then have "poll_run L ph ((?mid @ [StopPoll False]) @ new) = Some ph'"
            using n(2) by (simp only: poll_run_append) simp
          with n(1,3) show ?thesis
            by (intro exI [of _ "(?mid @ [StopPoll False]) @ new"] exI [of _ ph']) simp
        qed
      qed
    qed
  qed
qed

lemma p_loop_polls:
  "p_loop n E L tpb lc pd tr = (fl, tr') \<Longrightarrow>
   \<exists>new ph'. tr' = tr @ new \<and> poll_run L Idle new = Some ph' \<and> flow_phase fl ph'"
proof (induction n arbitrary: pd tr)
  case 0
  then show ?case by (simp add: flow_phase_def)
next
  case (Suc n)
  show ?case
  proof (cases "pd < num_p (p_array L)")
    case False
    with Suc.prems show ?thesis by (simp add: flow_phase_def)
  next
    case True
    let ?lc = "lc\<lparr>l_num_p_done := pd, l_curr_num_p := chunk_p E L pd\<rparr>"
    from True Suc.prems obtain fl1 tr1 where
      sq: "sq_loop n E L tpb ?lc 0 tr = (fl1, tr1)"
      by (cases "sq_loop n E L tpb ?lc 0 tr") (auto simp: Let_def)
    from sq_loop_polls [OF sq, of Idle] obtain a ph1 where
      a: "tr1 = tr @ a" "poll_run L Idle a = Some ph1"
        "case fl1 of Next \<Rightarrow> swept L ph1 | Return r \<Rightarrow> r = 1 \<and> ph1 = Ended | _ \<Rightarrow> True"
      by auto
    show ?thesis
    proof (cases fl1)
      case Next
      with a(3) have sw: "swept L ph1" by simp
      show ?thesis
      proof (cases "past_deadline E (length tr1)")
        case late: True
        with True sq Next Suc.prems have r: "tr' = tr @ (a @ [TimePoll True])" "fl = Return 1"
          by (simp_all add: Let_def a(1))
        have "poll_run L Idle (a @ [TimePoll True]) = Some Ended"
          by (simp only: poll_run_append a(2)) (simp add: poll_time [OF sw])
        with r show ?thesis
          by (intro exI [of _ "a @ [TimePoll True]"] exI [of _ Ended]) (simp add: flow_phase_def)
      next
        case intime: False
        with True sq Next Suc.prems
        have "p_loop n E L tpb lc (pd + chunk_p E L pd) (tr1 @ [TimePoll False]) = (fl, tr')"
          by (simp add: Let_def)
        from Suc.IH [OF this] obtain new ph' where
          n: "tr' = (tr1 @ [TimePoll False]) @ new" "poll_run L Idle new = Some ph'"
            "flow_phase fl ph'" by blast
        have "poll_run L Idle (a @ [TimePoll False]) = Some Idle"
          by (simp only: poll_run_append a(2)) (simp add: poll_time [OF sw])
        then have "poll_run L Idle ((a @ [TimePoll False]) @ new) = Some ph'"
          using n(2) by (simp only: poll_run_append) simp
        with n(1,3) a(1) show ?thesis
          by (intro exI [of _ "(a @ [TimePoll False]) @ new"] exI [of _ ph']) simp
      qed
    next
      case (Return r)
      with True sq Suc.prems have "tr' = tr1" "fl = fl1" by (simp_all add: Let_def)
      with a Return show ?thesis by (auto simp: flow_phase_def)
    next
      case (Crash f)
      with True sq Suc.prems have "tr' = tr1" "fl = fl1" by (simp_all add: Let_def)
      with a Crash show ?thesis by (auto simp: flow_phase_def)
    next
      case Timeout
      with True sq Suc.prems have "tr' = tr1" "fl = fl1" by (simp_all add: Let_def)
      with a Timeout show ?thesis by (auto simp: flow_phase_def)
    qed
  qed
qed

lemma q_loop_polls:
  "q_loop n E L tpb gi lc qd tr = (fl, tr') \<Longrightarrow>
   \<exists>new ph'. tr' = tr @ new \<and> poll_run L Idle new = Some ph' \<and> flow_phase fl ph'"
proof (induction n arbitrary: qd tr)
  case 0
  then show ?case by (simp add: flow_phase_def)
next
  case (Suc n)
  show ?case
  proof (cases "qd < num_p (q_array L) \<and> tpb \<noteq> 0 \<and> chunk_q E L tpb qd \<noteq> 0")
    case False
    with Suc.prems have "tr' = tr" "fl = Next \<or> fl = Crash DivideByZero"
      by (auto split: if_splits)
    then show ?thesis by (auto simp: flow_phase_def)
  next
    case True
    let ?lc = "lc\<lparr>l_num_q_done := qd, l_curr_num_q := chunk_q E L tpb qd,
                   l_num_blocks := grid_width L tpb gi (chunk_q E L tpb qd)\<rparr>"
    from True Suc.prems obtain fl1 tr1 where
      pl: "p_loop n E L tpb ?lc 0 tr = (fl1, tr1)"
      by (cases "p_loop n E L tpb ?lc 0 tr") auto
    from p_loop_polls [OF pl] obtain a ph1 where
      a: "tr1 = tr @ a" "poll_run L Idle a = Some ph1" "flow_phase fl1 ph1" by blast
    show ?thesis
    proof (cases fl1)
      case Next
      with a(3) have i: "ph1 = Idle" by (simp add: flow_phase_def)
      from Next True pl Suc.prems
      have "q_loop n E L tpb gi lc (qd + chunk_q E L tpb qd) tr1 = (fl, tr')"
        by simp
      from Suc.IH [OF this] obtain new ph' where
        n: "tr' = tr1 @ new" "poll_run L Idle new = Some ph'" "flow_phase fl ph'" by blast
      have "poll_run L Idle (a @ new) = Some ph'"
        using a(2) i n(2) by (simp only: poll_run_append) simp
      with n(1,3) a(1) show ?thesis by (intro exI [of _ "a @ new"] exI [of _ ph']) simp
    next
      case (Return r)
      with True pl Suc.prems have "tr' = tr1" "fl = fl1" by simp_all
      with a show ?thesis by auto
    next
      case (Crash f)
      with True pl Suc.prems have "tr' = tr1" "fl = fl1" by simp_all
      with a show ?thesis by auto
    next
      case Timeout
      with True pl Suc.prems have "tr' = tr1" "fl = fl1" by simp_all
      with a show ?thesis by auto
    qed
  qed
qed

lemma batch_polls:
  assumes "sieve_lattice_batch n E L ls tpb gi gk tr = (res, tr')"
  shows "\<exists>new ph. tr' = tr @ new \<and> poll_run L Idle new = Some ph
           \<and> (case res of Returns r \<Rightarrow> (r = 0 \<and> ph = Idle) \<or> (r = 1 \<and> ph = Ended) | _ \<Rightarrow> True)"
proof -
  let ?lc = "\<lparr>l_kernel = gk,
              l_params = kernel_params (sizeof_ptr E) (sizeof_ptr E),
              l_lattice_size = ucast ls,
              l_num_q_done = 0, l_curr_num_q = 0, l_num_blocks = 0,
              l_num_p_done = 0, l_curr_num_p = 0, l_num_sq_done = 0, l_curr_num_sq = 0\<rparr>"
  obtain fl t where q: "q_loop n E L tpb gi ?lc 0 tr = (fl, t)"
    by (cases "q_loop n E L tpb gi ?lc 0 tr") auto
  with assms have r: "tr' = t"
    "res = (case fl of Next \<Rightarrow> Returns 0 | Return r \<Rightarrow> Returns r | Crash f \<Rightarrow> Faults f
            | Timeout \<Rightarrow> OutOfFuel)"
    unfolding sieve_lattice_batch_def by (auto split: flow.splits)
  from q_loop_polls [OF q] obtain new ph where
    "t = tr @ new" "poll_run L Idle new = Some ph" "flow_phase fl ph" by blast
  with r show ?thesis by (cases fl) (auto simp: flow_phase_def)
qed

text \<open>
  C5. In a call of \<^verbatim>\<open>sieve_lattice_batch\<close> every launch is followed by the calls of
  the handler for its hits and then by a read of the stop flag, and the read of the
  clock comes when the special-q chunks of a small-p chunk are finished. Every read
  is recorded with what the environment answered at that moment. The call returns 1
  exactly when a read found the flag set or the deadline passed, and that read is
  then its last event; it returns 0 exactly when it ran to the end of its loops with
  no read answering so. \<^verbatim>\<open>sieve_specialq_64\<close> stores the result in \<^verbatim>\<open>quit\<close>: it
  returns 1 exactly when one of the reads answered so, and that read is the last
  event before the buffers are released, so no launch, no further chunk at any level
  and no further read follows it; it returns 0 exactly when it ran to the end of its
  loops. A run that ends in a fault or is cut off by the fuel has met no such read.
\<close>

theorem stop_and_deadline_abort:
  "(sieve_specialq_64 n E gpu_info sieve_special_q special_q_min special_q_max
        sieve_small_p small_p_min small_p_max sieve_large_p large_p_min large_p_max tr
      = (res, tr') \<longrightarrow>
      extends (polls_read E) tr tr'
    \<and> (\<exists>new. (res = Returns 1 \<and> aborted new
                  \<and> tr' = tr @ setup_events @ new @ cleanup_events)
             \<or> (res = Returns 0 \<and> quiet new
                  \<and> tr' = tr @ setup_events @ new @ cleanup_events)
             \<or> (((\<exists>f. res = Faults f) \<or> res = OutOfFuel) \<and> quiet new
                  \<and> tr' = tr @ setup_events @ new)))
   \<and> (sieve_lattice_batch m E L lattice_size tpb gpu_info gpu_kernel t = (r, t') \<longrightarrow>
      extends (polls_read E) t t'
    \<and> (\<exists>new. t' = t @ new
           \<and> ((r = Returns 1 \<and> aborted new \<and> poll_run L Idle new = Some Ended)
              \<or> (r = Returns 0 \<and> quiet new \<and> poll_run L Idle new = Some Idle)
              \<or> (((\<exists>f. r = Faults f) \<or> r = OutOfFuel) \<and> quiet new
                   \<and> poll_run L Idle new \<noteq> None))))"
proof (intro conjI impI)
  assume a: "sieve_specialq_64 n E gpu_info sieve_special_q special_q_min special_q_max
        sieve_small_p small_p_min small_p_max sieve_large_p large_p_min large_p_max tr
      = (res, tr')"
  show "extends (polls_read E) tr tr'"
    by (rule driver_extends [OF a]) (simp_all add: polls_read_def)
  from driver_abort [OF a] obtain new where
    n: "case res of
            Returns q \<Rightarrow> tr' = tr @ setup_events @ new @ cleanup_events
                          \<and> ((q = 0 \<and> quiet new) \<or> (q = 1 \<and> aborted new))
          | _ \<Rightarrow> tr' = tr @ setup_events @ new \<and> quiet new" by blast
  show "\<exists>new. (res = Returns 1 \<and> aborted new
                  \<and> tr' = tr @ setup_events @ new @ cleanup_events)
             \<or> (res = Returns 0 \<and> quiet new
                  \<and> tr' = tr @ setup_events @ new @ cleanup_events)
             \<or> (((\<exists>f. res = Faults f) \<or> res = OutOfFuel) \<and> quiet new
                  \<and> tr' = tr @ setup_events @ new)"
    using n by (intro exI [of _ new]) (cases res; auto)
next
  assume b: "sieve_lattice_batch m E L lattice_size tpb gpu_info gpu_kernel t = (r, t')"
  show "extends (polls_read E) t t'"
    by (rule batch_extends [OF b]) (simp_all add: polls_read_def)
  from batch_abort [OF b] obtain new where n: "t' = t @ new" "result_trace r new" by blast
  from batch_polls [OF b] obtain new' ph where
    p: "t' = t @ new'" "poll_run L Idle new' = Some ph"
      "case r of Returns q \<Rightarrow> (q = 0 \<and> ph = Idle) \<or> (q = 1 \<and> ph = Ended) | _ \<Rightarrow> True"
    by blast
  from n(1) p(1) have e: "new' = new" by simp
  have ne: "aborted x \<Longrightarrow> \<not> quiet x" for x by (auto simp: aborted_def)
  show "\<exists>new. t' = t @ new
           \<and> ((r = Returns 1 \<and> aborted new \<and> poll_run L Idle new = Some Ended)
              \<or> (r = Returns 0 \<and> quiet new \<and> poll_run L Idle new = Some Idle)
              \<or> (((\<exists>f. r = Faults f) \<or> r = OutOfFuel) \<and> quiet new
                   \<and> poll_run L Idle new \<noteq> None))"
    using n p(2,3) unfolding e
    by (intro exI [of _ new]) (cases r; auto simp: result_trace_def)
qed

theorem stop_and_deadline_abort_witness:
  "sieve_specialq_64 7 ex_stop_env \<lparr>num_compute_units = 2\<rparr> ex_sieve 2 3 ex_sieve 2 4
       ex_sieve2 5 9 []
     = (Returns 1, setup_events @ [Launch ex_launch, StopPoll True] @ cleanup_events)
   \<and> extends (polls_read ex_stop_env) []
       (setup_events @ [Launch ex_launch, StopPoll True] @ cleanup_events)
   \<and> aborted [Launch ex_launch, StopPoll True]
   \<and> sieve_lattice_batch 4 ex_deadline_env ex_L 7 2 \<lparr>num_compute_units = 2\<rparr>
       sieve_kernel_48 []
     = (Returns 1, [Launch ex_launch, StopPoll False, TimePoll True])
   \<and> extends (polls_read ex_deadline_env) []
       [Launch ex_launch, StopPoll False, TimePoll True]
   \<and> aborted [Launch ex_launch, StopPoll False, TimePoll True]
   \<and> poll_run ex_L Idle [Launch ex_launch, StopPoll False, TimePoll True] = Some Ended"
proof -
  have n: "7 = Suc (Suc (Suc (Suc (Suc (Suc (Suc 0))))))" by simp
  have d: "sieve_specialq_64 7 ex_stop_env \<lparr>num_compute_units = 2\<rparr> ex_sieve 2 3 ex_sieve 2 4
       ex_sieve2 5 9 []
     = (Returns 1, setup_events @ [Launch ex_launch, StopPoll True] @ cleanup_events)"
    unfolding n using ex_driver_stop [of 0 "[]"] by simp
  note a = stop_and_deadline_abort [where n = 7 and E = ex_stop_env
      and gpu_info = "\<lparr>num_compute_units = 2\<rparr>" and sieve_special_q = ex_sieve
      and special_q_min = 2 and special_q_max = 3 and sieve_small_p = ex_sieve
      and small_p_min = 2 and small_p_max = 4 and sieve_large_p = ex_sieve2
      and large_p_min = 5 and large_p_max = 9 and tr = "[]" and res = "Returns 1"
      and tr' = "setup_events @ [Launch ex_launch, StopPoll True] @ cleanup_events"]
  note b = stop_and_deadline_abort [where m = 4 and E = ex_deadline_env and L = ex_L
      and lattice_size = 7 and tpb = 2 and gpu_info = "\<lparr>num_compute_units = 2\<rparr>"
      and gpu_kernel = sieve_kernel_48 and t = "[]" and r = "Returns 1"
      and t' = "[Launch ex_launch, StopPoll False, TimePoll True]"]
  from a d have a1: "extends (polls_read ex_stop_env) []
       (setup_events @ [Launch ex_launch, StopPoll True] @ cleanup_events)"
    and a2: "aborted [Launch ex_launch, StopPoll True]"
    by auto
  from b ex_deadline_run have b1: "extends (polls_read ex_deadline_env) []
       [Launch ex_launch, StopPoll False, TimePoll True]"
    and b2: "aborted [Launch ex_launch, StopPoll False, TimePoll True]"
    and b3: "poll_run ex_L Idle [Launch ex_launch, StopPoll False, TimePoll True] = Some Ended"
    by auto
  from d a1 a2 ex_deadline_run b1 b2 b3 show ?thesis by blast
qed


subsection \<open>The range scanner\<close>

lemma rounds_simps [simp]:
  "rounds [] = []" "rounds (a @ b) = rounds a @ rounds b"
  "rounds (e # es) = ranges_of e @ rounds es"
  by (simp_all add: rounds_def)

lemma quiet_setup [simp]: "quiet setup_events"
  by (auto simp: quiet_def setup_events_def is_abort_def)

lemma quiet_cleanup [simp]: "quiet cleanup_events"
  by (auto simp: quiet_def cleanup_events_def is_abort_def)

lemma releases_cleanup [simp]: "releases cleanup_events"
  by (auto simp: releases_def cleanup_events_def)

lemma rounds_setup [simp]: "rounds setup_events = []"
  by (simp add: rounds_def setup_events_def)

lemma rounds_cleanup [simp]: "rounds cleanup_events = []"
  by (simp add: rounds_def cleanup_events_def)

lemma releases_rounds: "releases evs \<Longrightarrow> rounds evs = []"
  by (induction evs) (auto simp: releases_def)

lemma extends_no_rounds:
  assumes "extends (\<lambda>k e. ranges_of e = []) tr tr'"
  shows "\<exists>new. tr' = tr @ new \<and> rounds new = []"
proof -
  from assms obtain new where n: "tr' = tr @ new" "\<forall>i < length new. ranges_of (new ! i) = []"
    by (auto simp: extends_def)
  from n(2) have "\<forall>e \<in> set new. ranges_of e = []" by (auto simp: in_set_conv_nth)
  then have "rounds new = []" by (simp add: rounds_def)
  with n(1) show ?thesis by blast
qed

lemma stopped_prepend: "quiet a \<Longrightarrow> stopped b \<Longrightarrow> stopped (a @ b)"
proof -
  assume a: "quiet a" and "stopped b"
  then obtain pre e post where "b = pre @ e # post" "quiet pre" "is_abort e" "releases post"
    by (auto simp: stopped_def)
  with a show ?thesis
    unfolding stopped_def by (intro exI [of _ "a @ pre"] exI [of _ e] exI [of _ post]) simp
qed

lemma stopped_append: "stopped a \<Longrightarrow> releases b \<Longrightarrow> stopped (a @ b)"
proof -
  assume "stopped a" and b: "releases b"
  then obtain pre e post where "a = pre @ e # post" "quiet pre" "is_abort e" "releases post"
    by (auto simp: stopped_def)
  with b show ?thesis
    unfolding stopped_def
    by (intro exI [of _ pre] exI [of _ e] exI [of _ "post @ b"]) (auto simp: releases_def)
qed

lemma stopped_not_quiet: "stopped evs \<Longrightarrow> \<not> quiet evs"
  by (auto simp: stopped_def)

lemma scan_result_prepend: "quiet a \<Longrightarrow> scan_result res b \<Longrightarrow> scan_result res (a @ b)"
  by (cases res) (auto simp: scan_result_def stopped_prepend)

lemma driver_round:
  assumes "sieve_specialq_64 n E gi sq sqmin sqmax sp spmin spmax lp lpmin lpmax tr = (res, tr')"
  shows "\<exists>new. tr' = tr @ new \<and> rounds new = [] \<and> scan_result res new"
proof -
  have "extends (\<lambda>k e. ranges_of e = []) tr tr'"
    by (rule driver_extends [OF assms]) simp_all
  then obtain new where n: "tr' = tr @ new" "rounds new = []"
    using extends_no_rounds by blast
  from driver_abort [OF assms] obtain m where
    m: "case res of
            Returns q \<Rightarrow> tr' = tr @ setup_events @ m @ cleanup_events
                          \<and> ((q = 0 \<and> quiet m) \<or> (q = 1 \<and> aborted m))
          | _ \<Rightarrow> tr' = tr @ setup_events @ m \<and> quiet m" by blast
  have "scan_result res new"
  proof (cases res)
    case (Returns q)
    with m n have e: "new = setup_events @ m @ cleanup_events"
      and c: "(q = 0 \<and> quiet m) \<or> (q = 1 \<and> aborted m)" by auto
    from c show ?thesis
    proof
      assume "q = 0 \<and> quiet m"
      with Returns e show ?thesis by (simp add: scan_result_def)
    next
      assume a: "q = 1 \<and> aborted m"
      then obtain pre ev where p: "m = pre @ [ev]" "quiet pre" "is_abort ev"
        by (auto simp: aborted_def)
      have st: "stopped (m @ cleanup_events)"
        unfolding stopped_def p(1)
        by (intro exI [of _ pre] exI [of _ ev] exI [of _ cleanup_events]) (simp add: p)
      have "stopped new" unfolding e by (rule stopped_prepend [OF quiet_setup st])
      with Returns a show ?thesis by (simp add: scan_result_def)
    qed
  next
    case (Faults f)
    with m n show ?thesis by (auto simp: scan_result_def)
  next
    case OutOfFuel
    with m n show ?thesis by (auto simp: scan_result_def)
  qed
  with n show ?thesis by blast
qed

lemma scan_inv_stop:
  assumes "i < 3" "rounds dnew = []" "scan_result res dnew"
    and "res = Returns 0 \<Longrightarrow> slide_overflows F E lpmax"
  shows "scan_inv F E i (spmin, spmax, lpmin, lpmax) quit res
           (PrintRanges sqmin sqmax spmin spmax lpmin lpmax # dnew)"
proof -
  have "scan_result res ([PrintRanges sqmin sqmax spmin spmax lpmin lpmax] @ dnew)"
    by (rule scan_result_prepend [OF _ assms(3)]) (simp add: is_abort_def)
  with assms show ?thesis
    by (auto simp: scan_inv_def large_max_def)
qed

lemma scan_loop_inv:
  assumes "scan_loop i n F E gi ssq sqmin sqmax sp lp spmin spmax lpmin lpmax quit tr = (res, tr')"
  shows "\<exists>new. tr' = tr @ new \<and> scan_inv F E i (spmin, spmax, lpmin, lpmax) quit res new"
  using assms
proof (induction "3 - i" arbitrary: i spmin spmax lpmin lpmax quit tr)
  case 0
  then have "\<not> i < 3" by simp
  with "0.prems" have "res = Returns quit" "tr' = tr"
    by (subst (asm) scan_loop.simps; simp)+
  with 0 show ?case by (simp add: scan_inv_def)
next
  case (Suc k)
  then have i: "i < 3" by simp
  let ?pr = "PrintRanges sqmin sqmax spmin spmax lpmin lpmax"
  obtain dres dtr where d: "sieve_specialq_64 n E gi ssq sqmin sqmax sp spmin spmax
                              lp lpmin lpmax (tr @ [?pr]) = (dres, dtr)" by fastforce
  from driver_round [OF d] obtain dnew where
    dn: "dtr = tr @ ?pr # dnew" "rounds dnew = []" "scan_result dres dnew" by auto
  have step: "(res, tr') =
      (case dres of
         Faults f \<Rightarrow> (Faults f, dtr)
       | OutOfFuel \<Rightarrow> (OutOfFuel, dtr)
       | Returns q \<Rightarrow>
           if q \<noteq> 0 \<or> slide_overflows F E lpmax then (Returns q, dtr)
           else
             (case product_to_uint32 F E lpmax of
                None \<Rightarrow> (Faults ConversionOutOfRange, dtr)
              | Some large_p_max' \<Rightarrow>
                  (case quotient_to_uint32 F E spmin of
                     None \<Rightarrow> (Faults ConversionOutOfRange, dtr)
                   | Some small_p_min' \<Rightarrow>
                       scan_loop (i + 1) n F E gi ssq sqmin sqmax sp lp
                         small_p_min' spmin lpmax large_p_max' q dtr)))"
    using Suc.prems i by (subst (asm) scan_loop.simps) (simp add: d)
  consider (stop) "res = dres" "tr' = dtr" "res = Returns 0 \<Longrightarrow> slide_overflows F E lpmax"
    | (conv) "res = Faults ConversionOutOfRange" "tr' = dtr" "dres = Returns 0"
    | (slide) b c where "dres = Returns 0" "\<not> slide_overflows F E lpmax"
        "product_to_uint32 F E lpmax = Some b" "quotient_to_uint32 F E spmin = Some c"
        "scan_loop (i + 1) n F E gi ssq sqmin sqmax sp lp c spmin lpmax b 0 dtr = (res, tr')"
    using step by (auto split: outcome.splits if_splits option.splits)
  then show ?case
  proof cases
    case stop
    from scan_inv_stop [OF i dn(2), of res F E lpmax spmin spmax lpmin quit sqmin sqmax]
      stop dn
    show ?thesis by auto
  next
    case conv
    with dn(3) have "quiet dnew" by (auto simp: scan_result_def stopped_not_quiet)
    then have "scan_result res dnew" using conv by (simp add: scan_result_def)
    from scan_inv_stop [OF i dn(2) this, of F E lpmax spmin spmax lpmin quit sqmin sqmax]
      conv dn
    show ?thesis by auto
  next
    case slide
    from slide(1) dn(3) have q: "quiet dnew" by (auto simp: scan_result_def stopped_not_quiet)
    from Suc(2) have k: "k = 3 - (i + 1)" by simp
    from Suc(1) [OF k slide(5)] obtain new where
      n: "tr' = dtr @ new" "scan_inv F E (i + 1) (c, spmin, lpmax, b) 0 res new" by blast
    have sl: "slides F E (spmin, spmax, lpmin, lpmax) (c, spmin, lpmax, b)"
      using slide(3,4)
      by (auto simp: slides_def product_to_uint32_def quotient_to_uint32_def split: if_splits)
    have qp: "quiet (?pr # dnew)" using q by (simp add: is_abort_def)
    have "scan_inv F E i (spmin, spmax, lpmin, lpmax) quit res (?pr # dnew @ new)"
    proof (cases "3 \<le> i + 1")
      case True
      with i have i2: "i = 2" by simp
      from True n(2) have "new = []" "res = Returns 0" by (simp_all add: scan_inv_def)
      with i2 qp dn(2) show ?thesis
        by (simp add: scan_inv_def scan_result_def)
    next
      case False
      with n(2) have inv: "(\<exists>rs. rounds new = (c, spmin, lpmax, b) # rs
                                  \<and> length rs \<le> 2 - (i + 1))"
          "chain F E (rounds new)" "scan_result res new"
          "res = Returns 0 \<and> \<not> slide_overflows F E (large_max (last (rounds new)))
             \<longrightarrow> length (rounds new) = 3 - (i + 1)"
        by (simp_all add: scan_inv_def)
      from inv(1) obtain rs where
        r: "rounds new = (c, spmin, lpmax, b) # rs" "length rs \<le> 2 - (i + 1)" by blast
      note r = r inv(2,3,4)
      have sr: "scan_result res ((?pr # dnew) @ new)"
        by (rule scan_result_prepend [OF qp r(4)])
      from False i r sl slide(2) dn(2) sr show ?thesis
        by (auto simp: scan_inv_def large_max_def)
    qed
    with n(1) dn(1) show ?thesis by (intro exI [of _ "?pr # dnew @ new"]) simp
  qed
qed

lemma scan_top:
  assumes "sieve_lattice_gpu_sq n F E gi p_size_max ssq sqmin sqmax tr = (res, tr')"
  shows "\<exists>new. tr' = tr @ new \<and> length (rounds new) \<le> 3 \<and> chain F E (rounds new)
           \<and> scan_result res new
           \<and> (res = Returns 0 \<and> rounds new \<noteq> []
                \<and> \<not> slide_overflows F E (large_max (last (rounds new)))
              \<longrightarrow> length (rounds new) = 3)"
proof -
  have triv: "\<exists>new. tr = tr @ new \<and> length (rounds new) \<le> 3 \<and> chain F E (rounds new)
           \<and> scan_result (Faults f) new
           \<and> (Faults f = Returns 0 \<and> rounds new \<noteq> []
                \<and> \<not> slide_overflows F E (large_max (last (rounds new)))
              \<longrightarrow> length (rounds new) = 3)" for f
    by (intro exI [of _ "[]"]) (simp add: scan_result_def)
  have conv: ?thesis if "res = Faults ConversionOutOfRange" "tr' = tr"
    using that triv [of ConversionOutOfRange] by simp
  show ?thesis
  proof (cases "sqrt_to_uint32 F p_size_max sqmax")
    case None
    with assms show ?thesis by (intro conv) (simp_all add: sieve_lattice_gpu_sq_def)
  next
    case (Some m)
    show ?thesis
    proof (cases "guard_fires F E m")
      case True
      with assms Some have "res = Returns 0" "tr' = tr @ [PrintError]"
        by (simp_all add: sieve_lattice_gpu_sq_def)
      then show ?thesis
        by (intro exI [of _ "[PrintError]"]) (simp add: scan_result_def is_abort_def)
    next
      case False
      show ?thesis
      proof (cases "product_to_uint32 F E m")
        case None
        with assms Some False show ?thesis
          by (intro conv) (simp_all add: sieve_lattice_gpu_sq_def)
      next
        case b: (Some b)
        show ?thesis
        proof (cases "quotient_to_uint32 F E (m - 1)")
          case None
          with assms Some False b show ?thesis
            by (intro conv) (simp_all add: sieve_lattice_gpu_sq_def)
        next
          case c: (Some c)
          obtain sres str where s: "scan_loop 0 n F E gi ssq sqmin sqmax (prime_sieve E)
              (prime_sieve E) c (m - 1) m b 0 (tr @ [FbInit, FbInit]) = (sres, str)"
            by fastforce
          from scan_loop_inv [OF s] obtain snew where
            sn: "str = (tr @ [FbInit, FbInit]) @ snew"
              "scan_inv F E 0 (c, m - 1, m, b) 0 sres snew" by blast
          from sn(2) have inv: "\<exists>rs. rounds snew = (c, m - 1, m, b) # rs \<and> length rs \<le> 2"
            "chain F E (rounds snew)" "scan_result sres snew"
            "sres = Returns 0 \<and> \<not> slide_overflows F E (large_max (last (rounds snew)))
               \<longrightarrow> length (rounds snew) = 3"
            by (simp_all add: scan_inv_def)
          from inv(1) have len: "length (rounds snew) \<le> 3" by auto
          have e: "(res, tr') = (case sres of Returns quit \<Rightarrow> (Returns quit, str @ [FbFree, FbFree])
                                 | _ \<Rightarrow> (sres, str))"
            using assms Some False b c s
            by (cases sres) (auto simp: sieve_lattice_gpu_sq_def)
          have q0: "quiet [FbInit, FbInit]" by (simp add: is_abort_def)
          have rel: "releases [FbFree, FbFree]" by (simp add: releases_def)
          show ?thesis
          proof (cases sres)
            case (Returns quit)
            with e sn(1) have r: "res = sres" "tr' = tr @ [FbInit, FbInit] @ snew @ [FbFree, FbFree]"
              by simp_all
            have "scan_result sres (snew @ [FbFree, FbFree])"
              using inv(3) Returns rel
              by (auto simp: scan_result_def stopped_append is_abort_def)
            then have "scan_result res ([FbInit, FbInit] @ snew @ [FbFree, FbFree])"
              unfolding r(1) by (rule scan_result_prepend [OF q0])
            with r len inv(2,4) show ?thesis
              by (intro exI [of _ "[FbInit, FbInit] @ snew @ [FbFree, FbFree]"]) simp
          next
            case (Faults f)
            with e sn(1) have r: "res = sres" "tr' = tr @ [FbInit, FbInit] @ snew" by simp_all
            have "scan_result res ([FbInit, FbInit] @ snew)"
              unfolding r(1) by (rule scan_result_prepend [OF q0 inv(3)])
            with r len inv(2,4) show ?thesis
              by (intro exI [of _ "[FbInit, FbInit] @ snew"]) simp
          next
            case OutOfFuel
            with e sn(1) have r: "res = sres" "tr' = tr @ [FbInit, FbInit] @ snew" by simp_all
            have "scan_result res ([FbInit, FbInit] @ snew)"
              unfolding r(1) by (rule scan_result_prepend [OF q0 inv(3)])
            with r len inv(2,4) show ?thesis
              by (intro exI [of _ "[FbInit, FbInit] @ snew"]) simp
          qed
        qed
      qed
    qed
  qed
qed

lemma ex_exact [simp]:
  "dbl_div exact_ops a b = a / b" "dbl_mul exact_ops a b = a * b" "dbl_sqrt exact_ops a = sqrt a"
  by (simp_all add: exact_ops_def)

lemma ex_scale [simp]: "P_SCALE ex_env = 3 / 2"
  by (simp add: ex_env_def)

lemma ex_round:
  "sieve_specialq_64 (Suc n) ex_env gi ssq a b (prime_sieve ex_env) c d (prime_sieve ex_env) e f tr
     = (Returns 0, tr @ setup_events @ cleanup_events)"
  by (rule driver_few_candidates) (simp add: ex_env_def candidates_def)

lemma ex_scan_end:
  "3 \<le> i \<Longrightarrow>
   scan_loop i n F E gi ssq sqmin sqmax sp lp spmin spmax lpmin lpmax quit tr = (Returns quit, tr)"
  by (subst scan_loop.simps) simp

lemma ex_scan_step:
  assumes "i < 3" "real (unat lpmax) \<le> 2863311530"
    and "double_to_uint32 (real (unat lpmax) * (3 / 2)) = Some b"
    and "double_to_uint32 (real (unat spmin) / (3 / 2)) = Some c"
  shows "scan_loop i (Suc n) exact_ops ex_env gi ssq sqmin sqmax (prime_sieve ex_env)
           (prime_sieve ex_env) spmin spmax lpmin lpmax quit tr
         = scan_loop (i + 1) (Suc n) exact_ops ex_env gi ssq sqmin sqmax (prime_sieve ex_env)
             (prime_sieve ex_env) c spmin lpmax b 0
             (tr @ [PrintRanges sqmin sqmax spmin spmax lpmin lpmax] @ setup_events
                @ cleanup_events)"
  using assms
  by (subst scan_loop.simps)
     (simp add: ex_round slide_overflows_def product_to_uint32_def quotient_to_uint32_def)

lemma ex_scan:
  "sieve_lattice_gpu_sq (Suc n) exact_ops ex_env gi 10000 ssq 1 1 tr
     = (Returns 0,
        tr @ [FbInit, FbInit, PrintRanges 1 1 66 99 100 150] @ setup_events @ cleanup_events
           @ [PrintRanges 1 1 44 66 150 225] @ setup_events @ cleanup_events
           @ [PrintRanges 1 1 29 44 225 337] @ setup_events @ cleanup_events
           @ [FbFree, FbFree])"
proof -
  have sq: "sqrt 10000 = 100" by (rule real_sqrt_unique) simp_all
  have m: "sqrt_to_uint32 exact_ops 10000 1 = Some 100"
    by (simp add: sqrt_to_uint32_def sq double_to_uint32_def)
  have g: "\<not> guard_fires exact_ops ex_env 100" by (simp add: guard_fires_def)
  have b: "product_to_uint32 exact_ops ex_env 100 = Some 150"
    by (simp add: product_to_uint32_def double_to_uint32_def)
  have c: "quotient_to_uint32 exact_ops ex_env 99 = Some 66"
    by (simp add: quotient_to_uint32_def double_to_uint32_def)
  have s: "scan_loop 0 (Suc n) exact_ops ex_env gi ssq 1 1 (prime_sieve ex_env) (prime_sieve ex_env)
             66 99 100 150 0 t
      = (Returns 0,
          t @ [PrintRanges 1 1 66 99 100 150] @ setup_events @ cleanup_events
           @ [PrintRanges 1 1 44 66 150 225] @ setup_events @ cleanup_events
           @ [PrintRanges 1 1 29 44 225 337] @ setup_events @ cleanup_events)" for t
    apply (subst ex_scan_step [where b = 225 and c = 44])
        apply (simp_all add: double_to_uint32_def)[4]
    apply (subst ex_scan_step [where b = 337 and c = 29])
        apply (simp_all add: double_to_uint32_def)[4]
    apply (subst ex_scan_step [where b = 505 and c = 19])
        apply (simp_all add: double_to_uint32_def)[4]
    apply (simp add: ex_scan_end)
    done
  show ?thesis
    by (simp add: sieve_lattice_gpu_sq_def m g b c s)
qed

lemma ex_guard:
  "sieve_lattice_gpu_sq n exact_ops ex_env gi 9000000000000000000 ssq sqmin 1 tr
     = (Returns 0, tr @ [PrintError])"
proof -
  have sq: "sqrt 9000000000000000000 = 3000000000" by (rule real_sqrt_unique) simp_all
  have m: "sqrt_to_uint32 exact_ops 9000000000000000000 1 = Some 3000000000"
    by (simp add: sqrt_to_uint32_def sq double_to_uint32_def)
  have g: "guard_fires exact_ops ex_env 3000000000" by (simp add: guard_fires_def)
  show ?thesis by (simp add: sieve_lattice_gpu_sq_def m g)
qed





text \<open>
  C7. A scan runs at most three rounds. Of two rounds in succession the first has not
  met the overflow test \<^verbatim>\<open>large_p_max > (uint32)(-1) / P_SCALE\<close> and the second has
  the ranges of the first after one slide: the large range \<open>[a, b]\<close> has become
  \<open>[b, b \<sqdot> s]\<close> and the small range \<open>[c, d]\<close> has become \<open>[c / s, c]\<close>, product and
  quotient converted to \<^verbatim>\<open>uint32\<close>. The scan returns 1 exactly when a round was
  stopped by the flag or the deadline, and then nothing but releases follows the
  abort event: no further round is run. A scan that returns 0 and whose last round has
  not met the overflow test has run all three rounds.
\<close>

theorem scan_rounds:
  assumes "sieve_lattice_gpu_sq n F E gpu_info p_size_max sieve_special_q special_q_min
             special_q_max tr = (res, tr')"
  shows "\<exists>new. tr' = tr @ new
           \<and> length (rounds new) \<le> 3
           \<and> chain F E (rounds new)
           \<and> scan_result res new
           \<and> (res = Returns 0 \<and> rounds new \<noteq> []
                \<and> \<not> slide_overflows F E (large_max (last (rounds new)))
              \<longrightarrow> length (rounds new) = 3)"
  using assms by (rule scan_top)

theorem scan_rounds_witness:
  "sieve_lattice_gpu_sq 1 exact_ops ex_env \<lparr>num_compute_units = 2\<rparr> 10000 ex_sieve 1 1 []
     = (Returns 0,
        [FbInit, FbInit, PrintRanges 1 1 66 99 100 150] @ setup_events @ cleanup_events
           @ [PrintRanges 1 1 44 66 150 225] @ setup_events @ cleanup_events
           @ [PrintRanges 1 1 29 44 225 337] @ setup_events @ cleanup_events
           @ [FbFree, FbFree])
   \<and> (\<exists>new. [FbInit, FbInit, PrintRanges 1 1 66 99 100 150] @ setup_events @ cleanup_events
           @ [PrintRanges 1 1 44 66 150 225] @ setup_events @ cleanup_events
           @ [PrintRanges 1 1 29 44 225 337] @ setup_events @ cleanup_events
           @ [FbFree, FbFree] = [] @ new
         \<and> rounds new = [(66, 99, 100, 150), (44, 66, 150, 225), (29, 44, 225, 337)]
         \<and> chain exact_ops ex_env (rounds new)
         \<and> scan_result (Returns 0) new)"
proof -
  note r = ex_scan [of 0 "\<lparr>num_compute_units = 2\<rparr>" ex_sieve "[]"]
  from scan_rounds [OF r] obtain new where
    n: "[] @ [FbInit, FbInit, PrintRanges 1 1 66 99 100 150] @ setup_events @ cleanup_events
           @ [PrintRanges 1 1 44 66 150 225] @ setup_events @ cleanup_events
           @ [PrintRanges 1 1 29 44 225 337] @ setup_events @ cleanup_events
           @ [FbFree, FbFree] = [] @ new"
      "chain exact_ops ex_env (rounds new)" "scan_result (Returns 0) new"
    by blast
  have rs: "rounds new = [(66, 99, 100, 150), (44, 66, 150, 225), (29, 44, 225, 337)]"
    using n(1) [symmetric] by simp
  from r n rs show ?thesis by auto
qed

text \<open>
  C10. When the guard fires the scanner returns 0. Every other scan that returns
  has the result 0 when no round was stopped, and 1 when one was: the value on the
  error path is the value of a scan that ran to its end.
\<close>

theorem config_error_returns_zero:
  "(sqrt_to_uint32 F p_size_max special_q_max = Some m \<and> guard_fires F E m \<longrightarrow>
      fst (sieve_lattice_gpu_sq n F E gpu_info p_size_max sieve_special_q special_q_min
             special_q_max tr) = Returns 0)
   \<and> (sieve_lattice_gpu_sq n F E gpu_info p_size_max sieve_special_q special_q_min
             special_q_max tr = (Returns q, tr') \<longrightarrow>
        (q = 0 \<and> quiet (drop (length tr) tr')) \<or> (q = 1 \<and> stopped (drop (length tr) tr')))"
proof (intro conjI impI)
  assume "sqrt_to_uint32 F p_size_max special_q_max = Some m \<and> guard_fires F E m"
  then show "fst (sieve_lattice_gpu_sq n F E gpu_info p_size_max sieve_special_q special_q_min
             special_q_max tr) = Returns 0"
    by (simp add: sieve_lattice_gpu_sq_def)
next
  assume "sieve_lattice_gpu_sq n F E gpu_info p_size_max sieve_special_q special_q_min
             special_q_max tr = (Returns q, tr')"
  from scan_top [OF this] obtain new where "tr' = tr @ new" "scan_result (Returns q) new"
    by blast
  then show "(q = 0 \<and> quiet (drop (length tr) tr')) \<or> (q = 1 \<and> stopped (drop (length tr) tr'))"
    by (simp add: scan_result_def)
qed

theorem config_error_returns_zero_witness:
  "sqrt_to_uint32 exact_ops 9000000000000000000 1 = Some 3000000000
   \<and> guard_fires exact_ops ex_env 3000000000
   \<and> fst (sieve_lattice_gpu_sq 1 exact_ops ex_env \<lparr>num_compute_units = 2\<rparr>
            9000000000000000000 ex_sieve 1 1 []) = Returns 0
   \<and> fst (sieve_lattice_gpu_sq 1 exact_ops ex_env \<lparr>num_compute_units = 2\<rparr> 10000
            ex_sieve 1 1 []) = Returns 0
   \<and> quiet (drop (length ([] :: trace))
        (snd (sieve_lattice_gpu_sq 1 exact_ops ex_env \<lparr>num_compute_units = 2\<rparr> 10000
                ex_sieve 1 1 [])))"
proof -
  have sq: "sqrt 9000000000000000000 = 3000000000" by (rule real_sqrt_unique) simp_all
  have m: "sqrt_to_uint32 exact_ops 9000000000000000000 1 = Some 3000000000"
    by (simp add: sqrt_to_uint32_def sq double_to_uint32_def)
  have g: "guard_fires exact_ops ex_env 3000000000" by (simp add: guard_fires_def)
  note r = ex_scan [of 0 "\<lparr>num_compute_units = 2\<rparr>" ex_sieve "[]"]
  note t = config_error_returns_zero [of exact_ops 9000000000000000000 1 3000000000 ex_env 1
      "\<lparr>num_compute_units = 2\<rparr>" ex_sieve 1 "[]"]
  note u = config_error_returns_zero [where F = exact_ops and E = ex_env and n = 1
      and gpu_info = "\<lparr>num_compute_units = 2\<rparr>" and p_size_max = 10000
      and sieve_special_q = ex_sieve and special_q_min = 1 and special_q_max = 1
      and tr = "[]" and q = 0
      and tr' = "[FbInit, FbInit, PrintRanges 1 1 66 99 100 150] @ setup_events @ cleanup_events
           @ [PrintRanges 1 1 44 66 150 225] @ setup_events @ cleanup_events
           @ [PrintRanges 1 1 29 44 225 337] @ setup_events @ cleanup_events
           @ [FbFree, FbFree]"]
  from t m g have a: "fst (sieve_lattice_gpu_sq 1 exact_ops ex_env \<lparr>num_compute_units = 2\<rparr>
            9000000000000000000 ex_sieve 1 1 []) = Returns 0" by blast
  from u r have b: "quiet (drop (length ([] :: trace))
        (snd (sieve_lattice_gpu_sq 1 exact_ops ex_env \<lparr>num_compute_units = 2\<rparr> 10000
                ex_sieve 1 1 [])))" by simp
  from m g a b r show ?thesis by simp
qed

end
